theory Spec2Isabelle
  imports Main "HOL-Library.Word" "HOL-Library.Multiset"
begin

section \<open>Magic hexagon search: data model\<close>

text \<open>
  The program places the values 1..19 into the 19 cells of the order-3 magic hexagon so
  that each of the 15 lines sums to 38.  Cell values are \<^verbatim>\<open>uint8_t\<close>; sums of cells are
  computed after integral promotion, that is in \<^verbatim>\<open>int\<close>, and only the \<^verbatim>\<open>needed\<close> value of
  a deduction is converted back to \<^verbatim>\<open>uint8_t\<close>.
\<close>

type_synonym u8 = "8 word"

definition N_Hexes :: nat where
  "N_Hexes = 19"

definition Required_Sum :: u8 where
  "Required_Sum = 38"

text \<open>
  The fold expression \<^verbatim>\<open>(board[idxs] + ...)\<close>: a sum of promoted values.  On a
  \<^verbatim>\<open>std::vector\<close> every index the program passes is below the size at that point: the
  case labels of the switch and the guards \<^verbatim>\<open>n_filled == n\<close> see to it (lemmas
  \<open>plan_step_Deduce_idxs\<close> and \<open>checks_idx_bound\<close> below).
\<close>

definition sum_of :: "u8 list \<Rightarrow> nat list \<Rightarrow> int" where
  "sum_of board idxs = sum_list (map (\<lambda>i. uint (board ! i)) idxs)"

definition sum_correct :: "u8 list \<Rightarrow> nat list \<Rightarrow> bool" where
  "sum_correct board idxs = (sum_of board idxs = uint Required_Sum)"

text \<open>
  The 15 lines in raster labelling, in the order of \<^verbatim>\<open>CheckHardcoded::is_solution\<close>
  (the table \<^verbatim>\<open>hex_lines\<close> lists the same lines in the same order), and the 15 lines in
  spiral labelling, in the order of \<^verbatim>\<open>spiral_solution_is_correct\<close>.
\<close>

definition hex_lines :: "nat list list" where
  "hex_lines =
    [[0, 1, 2], [3, 4, 5, 6], [7, 8, 9, 10, 11], [12, 13, 14, 15], [16, 17, 18],
     [0, 3, 7], [1, 4, 8, 12], [2, 5, 9, 13, 16], [6, 10, 14, 17], [11, 15, 18],
     [2, 6, 11], [1, 5, 10, 15], [0, 4, 9, 14, 18], [3, 8, 13, 17], [7, 12, 16]]"

definition spiral_lines :: "nat list list" where
  "spiral_lines =
    [[0, 1, 2], [11, 12, 13, 3], [10, 17, 18, 14, 4], [9, 16, 15, 5], [8, 7, 6],
     [0, 11, 10], [1, 12, 17, 9], [2, 13, 18, 16, 8], [3, 14, 15, 7], [4, 5, 6],
     [2, 3, 4], [1, 13, 14, 5], [0, 12, 18, 15, 6], [11, 17, 16, 7], [10, 9, 8]]"

definition spiral_solution_is_correct :: "u8 list \<Rightarrow> bool" where
  "spiral_solution_is_correct board = list_all (sum_correct board) spiral_lines"

subsection \<open>The attempt counter and \<^verbatim>\<open>CheckHardcoded::is_solution\<close>\<close>

text \<open>
  \<^verbatim>\<open>size_t\<close> is a 64-bit unsigned integer: increment and decrement wrap around.  The
  counters \<^verbatim>\<open>n_attempts\<close> and \<^verbatim>\<open>n_cells_filled\<close> are natural numbers below \<open>2^64\<close>, changed
  by these two functions only.
\<close>

definition size_modulus :: nat where
  "size_modulus = 2 ^ 64"

definition size_inc :: "nat \<Rightarrow> nat" where
  "size_inc n = (n + 1) mod size_modulus"

definition size_dec :: "nat \<Rightarrow> nat" where
  "size_dec n = (n + (size_modulus - 1)) mod size_modulus"

text \<open>
  The three file-level statics and the text written to \<^verbatim>\<open>std::cout\<close> by the validator.
\<close>

datatype message = Attempts nat | Stopping

record Globals =
  n_attempts :: nat
  n_attempts_log_period :: nat
  n_attempts_bail :: nat
  cout :: "message list"

definition Globals_init :: Globals where
  "Globals_init =
    \<lparr>n_attempts = 0, n_attempts_log_period = 10000000, n_attempts_bail = 100000000,
     cout = []\<rparr>"

text \<open>
  A call either returns a value and the new globals, or ends the process through
  \<^verbatim>\<open>std::exit(0)\<close>, or divides by zero (\<^verbatim>\<open>n_attempts % n_attempts_log_period\<close> with a zero
  period).
\<close>

datatype 'a outcome = Returned 'a Globals | Exited Globals | DivByZero

definition CheckHardcoded_is_solution :: "u8 list \<Rightarrow> Globals \<Rightarrow> bool outcome" where
  "CheckHardcoded_is_solution board g =
    (let g1 = g\<lparr>n_attempts := size_inc (n_attempts g)\<rparr> in
     if n_attempts_log_period g1 = 0 then DivByZero
     else
       let g2 = (if n_attempts g1 mod n_attempts_log_period g1 = 0
                 then g1\<lparr>cout := cout g1 @ [Attempts (n_attempts g1)]\<rparr> else g1) in
       if n_attempts g2 = n_attempts_bail g2
       then Exited (g2\<lparr>cout := cout g2 @ [Stopping]\<rparr>)
       else Returned (list_all (sum_correct board) hex_lines) g2)"

section \<open>The vector-based search state\<close>

text \<open>
  \<^verbatim>\<open>BoardState\<close> holds the filled cells and the values still available.  The callback
  \<^verbatim>\<open>consume_fun\<close> is the solution sink: the model returns the list of boards it was
  called with, in call order.
\<close>

record BoardState =
  board :: "u8 list"
  available :: "u8 list"

definition BoardState_init :: BoardState where
  "BoardState_init = \<lparr>board = [], available = map of_nat [1..<20]\<rparr>"

datatype FillOrder = Raster | Spiral

text \<open>
  \<^verbatim>\<open>incorrect_already\<close> is a disjunction of guarded line checks; each table entry is one
  disjunct \<^verbatim>\<open>(n_filled == n && !sum_correct(board, idxs...))\<close>.
\<close>

definition raster_checks :: "(nat \<times> nat list) list" where
  "raster_checks =
    [(3, [0, 1, 2]), (7, [3, 4, 5, 6]), (8, [0, 3, 7]), (12, [7, 8, 9, 10, 11]),
     (12, [2, 6, 11]), (13, [1, 4, 8, 12]), (16, [12, 13, 14, 15]), (16, [1, 5, 10, 15]),
     (17, [7, 12, 16]), (17, [2, 5, 9, 13, 16]), (18, [3, 8, 13, 17]),
     (18, [6, 10, 14, 17]), (19, [0, 4, 9, 14, 18]), (19, [11, 15, 18]),
     (19, [16, 17, 18])]"

definition spiral_checks :: "(nat \<times> nat list) list" where
  "spiral_checks =
    [(3, [0, 1, 2]), (5, [2, 3, 4]), (7, [4, 5, 6]), (9, [6, 7, 8]), (11, [8, 9, 10]),
     (12, [0, 10, 11]), (14, [3, 11, 12, 13]), (15, [1, 13, 14, 5]), (16, [3, 14, 15, 7]),
     (17, [5, 15, 16, 9]), (18, [7, 16, 17, 11]), (18, [1, 12, 17, 9]),
     (19, [0, 12, 18, 15, 6]), (19, [2, 13, 18, 16, 8]), (19, [4, 14, 18, 17, 10])]"

fun checks_of :: "FillOrder \<Rightarrow> (nat \<times> nat list) list" where
  "checks_of Raster = raster_checks"
| "checks_of Spiral = spiral_checks"

definition incorrect_already :: "FillOrder \<Rightarrow> BoardState \<Rightarrow> bool" where
  "incorrect_already fo st =
    (let n_filled = length (board st) in
     list_ex (\<lambda>(n, idxs). n_filled = n \<and> \<not> sum_correct (board st) idxs) (checks_of fo))"

text \<open>
  \<^verbatim>\<open>board.push_back(available[available_idx]); available.erase(begin + available_idx)\<close>.
  Every caller passes an index below \<^verbatim>\<open>available.size()\<close>.
\<close>

definition move_to_board :: "nat \<Rightarrow> BoardState \<Rightarrow> BoardState" where
  "move_to_board available_idx st =
    st\<lparr>board := board st @ [available st ! available_idx],
       available := take available_idx (available st) @ drop (Suc available_idx) (available st)\<rparr>"

subsection \<open>Line-by-line engine\<close>

text \<open>
  The loop \<^verbatim>\<open>for (idx = 0; idx != n_available; ++idx)\<close> makes one recursive call per
  position of \<^verbatim>\<open>available\<close>, each on a copy of the state, in increasing order of position.
\<close>

function solve_test_as_lines_filled :: "FillOrder \<Rightarrow> BoardState \<Rightarrow> u8 list list" where
  "solve_test_as_lines_filled fo st =
    (if incorrect_already fo st then []
     else
       let n_available = length (available st) in
       if n_available = 0 then [board st]
       else
         concat (map (\<lambda>idx.
             solve_test_as_lines_filled fo
               (st\<lparr>board := board st @ [available st ! idx],
                   available := take idx (available st) @ drop (Suc idx) (available st)\<rparr>))
           [0..<n_available]))"
  by pat_completeness auto
termination
  by (relation "measure (\<lambda>(fo, st). length (available st))") auto

declare solve_test_as_lines_filled.simps [simp del]

subsection \<open>The step table shared by both deducing engines\<close>

text \<open>
  \<^verbatim>\<open>BoardState::solve_deduce_last_cell_of_line\<close> and \<^verbatim>\<open>ArrayBoardState::solve\<close> switch on the
  number of filled cells with the same case labels and the same index arguments.
  \<^verbatim>\<open>NoCase\<close> stands for a value without a case label: the switch does nothing.
\<close>

datatype step = Choose | Deduce "nat list" | Terminal | NoCase

definition plan_step :: "nat \<Rightarrow> step" where
  "plan_step n =
    (if n \<in> {0, 1, 3, 5, 7, 9, 12} then Choose
     else if n = 2 then Deduce [0, 1]
     else if n = 4 then Deduce [2, 3]
     else if n = 6 then Deduce [4, 5]
     else if n = 8 then Deduce [7, 6]
     else if n = 10 then Deduce [8, 9]
     else if n = 11 then Deduce [0, 10]
     else if n = 13 then Deduce [3, 11, 12]
     else if n = 14 then Deduce [1, 5, 13]
     else if n = 15 then Deduce [3, 7, 14]
     else if n = 16 then Deduce [5, 9, 15]
     else if n = 17 then Deduce [7, 11, 16]
     else if n = 18 then Deduce [4, 10, 14, 17]
     else if n = 19 then Terminal
     else NoCase)"

subsection \<open>Deducing engine on \<^verbatim>\<open>BoardState\<close>\<close>

text \<open>
  \<^verbatim>\<open>std::find\<close>: the position of the first match, or the length for \<^verbatim>\<open>end()\<close>.
  \<^verbatim>\<open>choose_board\<close> is \<^verbatim>\<open>BoardState::choose\<close> and \<^verbatim>\<open>choose_board_loop\<close> its loop
  \<^verbatim>\<open>for (i = 0; i != available.size(); ++i)\<close>, which counts up from 0, so that its test is
  \<^verbatim>\<open>i < available.size()\<close>; every new state is a copy, the state itself does not change.
  \<^verbatim>\<open>deduce_board\<close> is \<^verbatim>\<open>BoardState::deduce\<close>.  The globals are threaded through the calls
  because the terminal step calls \<^verbatim>\<open>CheckHardcoded::is_solution\<close>; once a call has ended the
  process, nothing further runs.
\<close>

fun std_find :: "u8 list \<Rightarrow> u8 \<Rightarrow> nat" where
  "std_find [] v = 0"
| "std_find (x # xs) v = (if x = v then 0 else Suc (std_find xs v))"

lemma std_find_le: "std_find xs v \<le> length xs"
  by (induction xs) auto

type_synonym vec_run = "u8 list list \<times> unit outcome"

function solve_deduce_last_cell_of_line :: "BoardState \<Rightarrow> Globals \<Rightarrow> vec_run"
  and choose_board :: "BoardState \<Rightarrow> Globals \<Rightarrow> vec_run"
  and choose_board_loop :: "nat \<Rightarrow> BoardState \<Rightarrow> Globals \<Rightarrow> vec_run"
  and deduce_board :: "nat list \<Rightarrow> BoardState \<Rightarrow> Globals \<Rightarrow> vec_run"
where
  "solve_deduce_last_cell_of_line st g =
    (case plan_step (length (board st)) of
       Choose \<Rightarrow> choose_board st g
     | Deduce have_idxs \<Rightarrow> deduce_board have_idxs st g
     | Terminal \<Rightarrow>
         (case CheckHardcoded_is_solution (board st) g of
            Returned ok g' \<Rightarrow> (if ok then [board st] else [], Returned () g')
          | Exited g' \<Rightarrow> ([], Exited g')
          | DivByZero \<Rightarrow> ([], DivByZero))
     | NoCase \<Rightarrow> ([], Returned () g))"
| "choose_board st g = choose_board_loop 0 st g"
| "choose_board_loop i st g =
    (if i < length (available st) then
       (case solve_deduce_last_cell_of_line (move_to_board i st) g of
          (out1, Returned u g') \<Rightarrow>
            (case choose_board_loop (i + 1) st g' of (out2, r) \<Rightarrow> (out1 @ out2, r))
        | (out1, Exited g') \<Rightarrow> (out1, Exited g')
        | (out1, DivByZero) \<Rightarrow> (out1, DivByZero))
     else ([], Returned () g))"
| "deduce_board have_idxs st g =
    (let needed = (word_of_int (uint Required_Sum - sum_of (board st) have_idxs) :: u8);
         maybe_found = std_find (available st) needed in
     if maybe_found \<noteq> length (available st)
     then solve_deduce_last_cell_of_line (move_to_board maybe_found st) g
     else ([], Returned () g))"
  by pat_completeness auto

definition vec_measure ::
  "(BoardState \<times> Globals + BoardState \<times> Globals) +
   (nat \<times> BoardState \<times> Globals + nat list \<times> BoardState \<times> Globals) \<Rightarrow> nat \<times> nat" where
  "vec_measure x =
    (case x of
       Inl (Inl (st, g)) \<Rightarrow> (3 * length (available st) + 2, 0)
     | Inl (Inr (st, g)) \<Rightarrow> (3 * length (available st) + 1, 0)
     | Inr (Inl (i, st, g)) \<Rightarrow> (3 * length (available st), length (available st) - i)
     | Inr (Inr (idxs, st, g)) \<Rightarrow> (3 * length (available st) + 1, 0))"

termination solve_deduce_last_cell_of_line
proof (relation "inv_image (less_than <*lex*> less_than) vec_measure", goal_cases)
  case 1
  show ?case by (intro wf_inv_image wf_lex_prod wf_less_than)
next
  case (7 have_idxs st g x xa)
  then have "xa < length (available st)"
    using std_find_le[of "available st" x] by simp
  then show ?case
    by (simp add: vec_measure_def move_to_board_def)
qed (auto simp: vec_measure_def move_to_board_def)

declare solve_deduce_last_cell_of_line.simps [simp del] choose_board.simps [simp del]
  choose_board_loop.simps [simp del] deduce_board.simps [simp del]

section \<open>The array-based search state\<close>

text \<open>
  \<^verbatim>\<open>ArrayBoardState\<close> keeps the filled cells and the available values in one array of
  \<^verbatim>\<open>N_Hexes\<close> bytes: the first \<^verbatim>\<open>n_cells_filled\<close> entries are the board, the rest is the
  pool.  An access \<^verbatim>\<open>numbers[i]\<close> with \<^verbatim>\<open>i >= N_Hexes\<close> is outside the array; the model
  reports it as \<^verbatim>\<open>OutOfBounds\<close>.  The sink calls are returned as a list, together with
  the state the object is left in.
\<close>

datatype error = OutOfBounds

datatype RecursionStrategy = CreateNew | SwapAndSwapBack

record ArrayBoardState =
  numbers :: "u8 list"
  n_cells_filled :: nat

definition ArrayBoardState_init :: ArrayBoardState where
  "ArrayBoardState_init = \<lparr>numbers = map of_nat [1..<20], n_cells_filled = 0\<rparr>"

text \<open>A well-formed state: the array has its \<^verbatim>\<open>N_Hexes\<close> entries.\<close>

definition wf_state :: "ArrayBoardState \<Rightarrow> bool" where
  "wf_state st = (length (numbers st) = N_Hexes)"

text \<open>\<^verbatim>\<open>std::swap(numbers[i], numbers[j])\<close>\<close>

definition swap_numbers :: "nat \<Rightarrow> nat \<Rightarrow> ArrayBoardState \<Rightarrow> error + ArrayBoardState" where
  "swap_numbers i j st =
    (if i < N_Hexes \<and> j < N_Hexes
     then Inr (st\<lparr>numbers := (numbers st)[i := numbers st ! j, j := numbers st ! i]\<rparr>)
     else Inl OutOfBounds)"

function find_needed_from :: "nat \<Rightarrow> ArrayBoardState \<Rightarrow> u8 \<Rightarrow> error + nat" where
  "find_needed_from i st needed_value =
    (if i = N_Hexes then Inr N_Hexes
     else if \<not> i < N_Hexes then Inl OutOfBounds
     else if numbers st ! i = needed_value then Inr i
     else find_needed_from (i + 1) st needed_value)"
  by pat_completeness auto
termination
  by (relation "measure (\<lambda>(i, st, v). N_Hexes - i)") auto

definition find_needed :: "ArrayBoardState \<Rightarrow> u8 \<Rightarrow> error + nat" where
  "find_needed st needed_value = find_needed_from (n_cells_filled st) st needed_value"

definition find_needed_from_idxs :: "ArrayBoardState \<Rightarrow> nat list \<Rightarrow> error + nat" where
  "find_needed_from_idxs st have_idxs =
    (if \<forall>i \<in> set have_idxs. i < N_Hexes
     then find_needed st (word_of_int (uint Required_Sum - sum_of (numbers st) have_idxs))
     else Inl OutOfBounds)"

type_synonym run = "error + ArrayBoardState \<times> u8 list list"

text \<open>
  \<^verbatim>\<open>solve\<close> is generic in the strategy; \<^verbatim>\<open>choose\<close> and \<^verbatim>\<open>deduce_from_idx\<close> are specialised.
  \<^verbatim>\<open>deduce<RS>(i1, ...)\<close> is \<^verbatim>\<open>deduce_from_idx<RS>(find_needed_from_idxs(i1, ...))\<close> and is
  written so in \<^verbatim>\<open>solve\<close>.  \<^verbatim>\<open>choose_array_loop\<close> is the \<^verbatim>\<open>for\<close> loop of \<^verbatim>\<open>choose\<close>, entered
  with \<^verbatim>\<open>i = n_cells_filled + 1\<close>; its \<^verbatim>\<open>++i\<close> is written \<open>i + 1\<close>, since the body has run
  and so \<^verbatim>\<open>i < N_Hexes\<close>.  With \<^verbatim>\<open>CreateNew\<close> the recursive call runs on a copy, whose
  final state is dropped.  An access outside the array ends the run with \<^verbatim>\<open>OutOfBounds\<close>.
\<close>

function solve :: "RecursionStrategy \<Rightarrow> ArrayBoardState \<Rightarrow> run"
  and choose_array :: "RecursionStrategy \<Rightarrow> ArrayBoardState \<Rightarrow> run"
  and choose_array_loop :: "RecursionStrategy \<Rightarrow> nat \<Rightarrow> ArrayBoardState \<Rightarrow> run"
  and deduce_from_idx :: "RecursionStrategy \<Rightarrow> nat \<Rightarrow> ArrayBoardState \<Rightarrow> run"
where
  "solve rs st =
    (case plan_step (n_cells_filled st) of
       Choose \<Rightarrow> choose_array rs st
     | Deduce have_idxs \<Rightarrow>
         (case find_needed_from_idxs st have_idxs of
            Inl e \<Rightarrow> Inl e
          | Inr idx \<Rightarrow> deduce_from_idx rs idx st)
     | Terminal \<Rightarrow>
         Inr (st, if spiral_solution_is_correct (numbers st) then [numbers st] else [])
     | NoCase \<Rightarrow> Inr (st, []))"
| "choose_array rs st =
    (case solve rs (st\<lparr>n_cells_filled := size_inc (n_cells_filled st)\<rparr>) of
       Inl e \<Rightarrow> Inl e
     | Inr (st1, out1) \<Rightarrow>
         (case choose_array_loop rs (size_inc (size_dec (n_cells_filled st1)))
                 (st1\<lparr>n_cells_filled := size_dec (n_cells_filled st1)\<rparr>) of
            Inl e \<Rightarrow> Inl e
          | Inr (st2, out2) \<Rightarrow> Inr (st2, out1 @ out2)))"
| "choose_array_loop CreateNew i st =
    (if i = N_Hexes then Inr (st, [])
     else
       (case swap_numbers (n_cells_filled st) i st of
          Inl e \<Rightarrow> Inl e
        | Inr swapped_state \<Rightarrow>
            (case solve CreateNew
                    (swapped_state\<lparr>n_cells_filled := size_inc (n_cells_filled swapped_state)\<rparr>) of
               Inl e \<Rightarrow> Inl e
             | Inr (_, out1) \<Rightarrow>
                 (case choose_array_loop CreateNew (i + 1) st of
                    Inl e \<Rightarrow> Inl e
                  | Inr (st', out2) \<Rightarrow> Inr (st', out1 @ out2)))))"
| "choose_array_loop SwapAndSwapBack i st =
    (if i = N_Hexes then Inr (st, [])
     else
       (case swap_numbers (n_cells_filled st) i st of
          Inl e \<Rightarrow> Inl e
        | Inr st1 \<Rightarrow>
            (case solve SwapAndSwapBack (st1\<lparr>n_cells_filled := size_inc (n_cells_filled st1)\<rparr>) of
               Inl e \<Rightarrow> Inl e
             | Inr (st2, out1) \<Rightarrow>
                 (case swap_numbers (size_dec (n_cells_filled st2)) i
                         (st2\<lparr>n_cells_filled := size_dec (n_cells_filled st2)\<rparr>) of
                    Inl e \<Rightarrow> Inl e
                  | Inr st3 \<Rightarrow>
                      (case choose_array_loop SwapAndSwapBack (i + 1) st3 of
                         Inl e \<Rightarrow> Inl e
                       | Inr (st', out2) \<Rightarrow> Inr (st', out1 @ out2))))))"
| "deduce_from_idx CreateNew maybe_needed_idx st =
    (if maybe_needed_idx \<noteq> N_Hexes then
       (case swap_numbers (n_cells_filled st) maybe_needed_idx st of
          Inl e \<Rightarrow> Inl e
        | Inr swapped_state \<Rightarrow>
            (case solve CreateNew
                    (swapped_state\<lparr>n_cells_filled := size_inc (n_cells_filled swapped_state)\<rparr>) of
               Inl e \<Rightarrow> Inl e
             | Inr (_, out) \<Rightarrow> Inr (st, out)))
     else Inr (st, []))"
| "deduce_from_idx SwapAndSwapBack maybe_needed_idx st =
    (if maybe_needed_idx \<noteq> N_Hexes then
       (case swap_numbers (n_cells_filled st) maybe_needed_idx st of
          Inl e \<Rightarrow> Inl e
        | Inr st1 \<Rightarrow>
            (case solve SwapAndSwapBack (st1\<lparr>n_cells_filled := size_inc (n_cells_filled st1)\<rparr>) of
               Inl e \<Rightarrow> Inl e
             | Inr (st2, out) \<Rightarrow>
                 (case swap_numbers (size_dec (n_cells_filled st2)) maybe_needed_idx
                         (st2\<lparr>n_cells_filled := size_dec (n_cells_filled st2)\<rparr>) of
                    Inl e \<Rightarrow> Inl e
                  | Inr st3 \<Rightarrow> Inr (st3, out))))
     else Inr (st, []))"
  by pat_completeness auto


subsection \<open>Termination of the array engine\<close>

lemma size_modulus_pos: "0 < size_modulus"
  by (simp add: size_modulus_def)

lemma size_dec_inc: "size_dec (size_inc n) = n mod size_modulus"
proof -
  have "size_dec (size_inc n) = ((n + 1) + (size_modulus - 1)) mod size_modulus"
    unfolding size_inc_def size_dec_def by (rule mod_add_left_eq)
  also have "(n + 1) + (size_modulus - 1) = n + size_modulus"
    using size_modulus_pos by simp
  finally show ?thesis by simp
qed

lemma size_dec_mod: "size_dec n mod size_modulus = size_dec n"
  unfolding size_dec_def by simp

lemma size_inc_mod: "size_inc n mod size_modulus = size_inc n"
  unfolding size_inc_def by simp

lemma size_dec_cong: "m mod size_modulus = n mod size_modulus \<Longrightarrow> size_dec m = size_dec n"
  unfolding size_dec_def by (metis mod_add_left_eq)

lemma size_inc_cong: "m mod size_modulus = n mod size_modulus \<Longrightarrow> size_inc m = size_inc n"
  unfolding size_inc_def by (metis mod_add_left_eq)

lemma size_inc_small: "n < 19 \<Longrightarrow> size_inc n = Suc n"
  by (simp add: size_inc_def size_modulus_def)

lemma size_dec_Suc: "n < 19 \<Longrightarrow> size_dec (Suc n) = n"
  using size_dec_inc[of n] by (simp add: size_inc_def size_modulus_def)

lemma swap_numbers_n:
  "swap_numbers i j st = Inr st' \<Longrightarrow> n_cells_filled st' = n_cells_filled st"
  by (auto simp: swap_numbers_def split: if_splits)

lemma swap_numbers_bounds:
  "swap_numbers i j st = Inr st' \<Longrightarrow> i < N_Hexes \<and> j < N_Hexes"
  by (auto simp: swap_numbers_def split: if_splits)

lemma solve_partial_n:
  "solve_choose_array_choose_array_loop_deduce_from_idx_dom (Inl (Inl (rs, st))) \<Longrightarrow>
     (\<forall>st' out. solve rs st = Inr (st', out) \<longrightarrow>
        n_cells_filled st' mod size_modulus = n_cells_filled st mod size_modulus)"
  "solve_choose_array_choose_array_loop_deduce_from_idx_dom (Inl (Inr (rs, st))) \<Longrightarrow>
     (\<forall>st' out. choose_array rs st = Inr (st', out) \<longrightarrow>
        n_cells_filled st' mod size_modulus = n_cells_filled st mod size_modulus)"
  "solve_choose_array_choose_array_loop_deduce_from_idx_dom (Inr (Inl (rs, i, st))) \<Longrightarrow>
     (\<forall>st' out. choose_array_loop rs i st = Inr (st', out) \<longrightarrow>
        n_cells_filled st' mod size_modulus = n_cells_filled st mod size_modulus)"
  "solve_choose_array_choose_array_loop_deduce_from_idx_dom (Inr (Inr (rs, idx, st))) \<Longrightarrow>
     (\<forall>st' out. deduce_from_idx rs idx st = Inr (st', out) \<longrightarrow>
        n_cells_filled st' mod size_modulus = n_cells_filled st mod size_modulus)"
proof (induct rule: solve_choose_array_choose_array_loop_deduce_from_idx.pinduct)
  case (1 rs st)
  then show ?case
    by (auto simp: solve.psimps split: step.splits sum.splits if_splits)
next
  case (2 rs st)
  show ?case
  proof (intro allI impI)
    fix st' out
    assume r: "choose_array rs st = Inr (st', out)"
    from r 2(1) obtain st1 out1 out2 where
      s1: "solve rs (st\<lparr>n_cells_filled := size_inc (n_cells_filled st)\<rparr>) = Inr (st1, out1)"
      and l: "choose_array_loop rs (size_inc (size_dec (n_cells_filled st1)))
                (st1\<lparr>n_cells_filled := size_dec (n_cells_filled st1)\<rparr>) = Inr (st', out2)"
      by (auto simp: choose_array.psimps split: sum.splits prod.splits)
    from 2(2) s1 have n1: "n_cells_filled st1 mod size_modulus = size_inc (n_cells_filled st) mod size_modulus"
      by simp
    from 2(3)[OF s1 refl] l
    have "n_cells_filled st' mod size_modulus = size_dec (n_cells_filled st1) mod size_modulus"
      by simp
    also have "\<dots> = size_dec (size_inc (n_cells_filled st))"
      using size_dec_cong[OF n1] by (simp add: size_dec_mod)
    finally show "n_cells_filled st' mod size_modulus = n_cells_filled st mod size_modulus"
      by (simp add: size_dec_inc)
  qed
next
  case (3 i st)
  show ?case
  proof (intro allI impI)
    fix st' out
    assume r: "choose_array_loop CreateNew i st = Inr (st', out)"
    show "n_cells_filled st' mod size_modulus = n_cells_filled st mod size_modulus"
    proof (cases "i = N_Hexes")
      case True
      with r 3(1) show ?thesis by (simp add: choose_array_loop.psimps)
    next
      case False
      with r 3(1) obtain sw s1 out1 out2 where
        sw: "swap_numbers (n_cells_filled st) i st = Inr sw"
        and s1: "solve CreateNew (sw\<lparr>n_cells_filled := size_inc (n_cells_filled sw)\<rparr>) = Inr (s1, out1)"
        and l: "choose_array_loop CreateNew (i + 1) st = Inr (st', out2)"
        by (auto simp: choose_array_loop.psimps split: sum.splits prod.splits)
      from 3(3)[OF False sw s1 refl] l show ?thesis by simp
    qed
  qed
next
  case (4 i st)
  show ?case
  proof (intro allI impI)
    fix st' out
    assume r: "choose_array_loop SwapAndSwapBack i st = Inr (st', out)"
    show "n_cells_filled st' mod size_modulus = n_cells_filled st mod size_modulus"
    proof (cases "i = N_Hexes")
      case True
      with r 4(1) show ?thesis by (simp add: choose_array_loop.psimps)
    next
      case False
      with r 4(1) obtain st1 st2 out1 st3 out2 where
        sw: "swap_numbers (n_cells_filled st) i st = Inr st1"
        and s1: "solve SwapAndSwapBack (st1\<lparr>n_cells_filled := size_inc (n_cells_filled st1)\<rparr>) = Inr (st2, out1)"
        and sb: "swap_numbers (size_dec (n_cells_filled st2)) i
                   (st2\<lparr>n_cells_filled := size_dec (n_cells_filled st2)\<rparr>) = Inr st3"
        and l: "choose_array_loop SwapAndSwapBack (i + 1) st3 = Inr (st', out2)"
        by (auto simp: choose_array_loop.psimps split: sum.splits prod.splits)
      from 4(2)[OF False sw] s1
      have n2: "n_cells_filled st2 mod size_modulus = size_inc (n_cells_filled st1) mod size_modulus"
        by simp
      have n3: "n_cells_filled st3 = size_dec (n_cells_filled st2)"
        using swap_numbers_n[OF sb] by simp
      have "n_cells_filled st' mod size_modulus = n_cells_filled st3 mod size_modulus"
        using 4(3)[OF False sw s1 refl sb] l by simp
      also have "\<dots> = size_dec (size_inc (n_cells_filled st1))"
        using size_dec_cong[OF n2] n3 by (simp add: size_dec_mod)
      finally show ?thesis
        using swap_numbers_n[OF sw] by (simp add: size_dec_inc)
    qed
  qed
next
  case (5 idx st)
  then show ?case
    by (auto simp: deduce_from_idx.psimps split: sum.splits prod.splits if_splits)
next
  case (6 idx st)
  show ?case
  proof (intro allI impI)
    fix st' out
    assume r: "deduce_from_idx SwapAndSwapBack idx st = Inr (st', out)"
    show "n_cells_filled st' mod size_modulus = n_cells_filled st mod size_modulus"
    proof (cases "idx = N_Hexes")
      case True
      with r 6(1) show ?thesis by (simp add: deduce_from_idx.psimps)
    next
      case False
      with r 6(1) obtain st1 st2 where
        sw: "swap_numbers (n_cells_filled st) idx st = Inr st1"
        and s1: "solve SwapAndSwapBack (st1\<lparr>n_cells_filled := size_inc (n_cells_filled st1)\<rparr>) = Inr (st2, out)"
        and sb: "swap_numbers (size_dec (n_cells_filled st2)) idx
                   (st2\<lparr>n_cells_filled := size_dec (n_cells_filled st2)\<rparr>) = Inr st'"
        by (auto simp: deduce_from_idx.psimps split: sum.splits prod.splits)
      from 6(2)[OF False sw] s1
      have n2: "n_cells_filled st2 mod size_modulus = size_inc (n_cells_filled st1) mod size_modulus"
        by simp
      have "n_cells_filled st' = size_dec (n_cells_filled st2)"
        using swap_numbers_n[OF sb] by simp
      also have "\<dots> = size_dec (size_inc (n_cells_filled st1))"
        using size_dec_cong[OF n2] by (simp add: size_dec_mod)
      finally show ?thesis
        using swap_numbers_n[OF sw] by (simp add: size_dec_inc)
    qed
  qed
qed


lemma size_inc_dec: "size_inc (size_dec n) = n mod size_modulus"
proof -
  have "size_inc (size_dec n) = ((n + (size_modulus - 1)) + 1) mod size_modulus"
    unfolding size_inc_def size_dec_def by (rule mod_add_left_eq)
  also have "(n + (size_modulus - 1)) + 1 = n + size_modulus"
    using size_modulus_pos by simp
  finally show ?thesis by simp
qed

lemma plan_step_Choose: "plan_step n = Choose \<Longrightarrow> n \<le> 12"
  by (auto simp: plan_step_def split: if_splits)

lemma plan_step_Deduce: "plan_step n = Deduce idxs \<Longrightarrow> n \<le> 18"
  by (auto simp: plan_step_def split: if_splits)

definition solve_measure ::
  "(RecursionStrategy \<times> ArrayBoardState + RecursionStrategy \<times> ArrayBoardState) +
   (RecursionStrategy \<times> nat \<times> ArrayBoardState + RecursionStrategy \<times> nat \<times> ArrayBoardState)
   \<Rightarrow> nat \<times> nat" where
  "solve_measure x =
    (case x of
       Inl (Inl (rs, st)) \<Rightarrow> (3 * (19 - n_cells_filled st), 0)
     | Inl (Inr (rs, st)) \<Rightarrow> (3 * (19 - size_inc (n_cells_filled st)) + 2, 0)
     | Inr (Inl (rs, i, st)) \<Rightarrow> (3 * (19 - size_inc (n_cells_filled st)) + 1, 19 - i)
     | Inr (Inr (rs, idx, st)) \<Rightarrow> (3 * (19 - size_inc (n_cells_filled st)) + 1, 0))"

termination solve
proof (relation "inv_image (less_than <*lex*> less_than) solve_measure", goal_cases)
  case 1
  show ?case by (intro wf_inv_image wf_lex_prod wf_less_than)
next
  case (2 rs st)
  then show ?case
    by (auto simp: solve_measure_def size_inc_small dest!: plan_step_Choose)
next
  case (3 rs st idxs idx)
  then show ?case
    by (auto simp: solve_measure_def size_inc_small dest!: plan_step_Deduce)
next
  case (4 rs st)
  show ?case by (simp add: solve_measure_def)
next
  case (5 rs st r st1 out1)
  from 5(1) 5(2) 5(3)
  have "n_cells_filled st1 mod size_modulus = size_inc (n_cells_filled st) mod size_modulus"
    using solve_partial_n(1) by fastforce
  then have "size_inc (size_dec (n_cells_filled st1)) = size_inc (n_cells_filled st)"
    by (simp add: size_inc_dec size_inc_mod)
  then show ?case by (simp add: solve_measure_def)
next
  case (6 i st sw)
  then show ?case
    by (simp add: solve_measure_def swap_numbers_n)
next
  case (7 i st sw r x y)
  then show ?case
    using swap_numbers_bounds[of "n_cells_filled st" i st sw]
    by (auto simp: solve_measure_def N_Hexes_def)
next
  case (8 i st st1)
  then show ?case
    by (simp add: solve_measure_def swap_numbers_n)
next
  case (9 i st st1 r st2 out1 st3)
  from 9 have sw: "swap_numbers (n_cells_filled st) i st = Inr st1"
    and sb: "swap_numbers (size_dec (n_cells_filled st2)) i
               (st2\<lparr>n_cells_filled := size_dec (n_cells_filled st2)\<rparr>) = Inr st3"
    by simp_all
  from 9
  have "n_cells_filled st2 mod size_modulus = size_inc (n_cells_filled st1) mod size_modulus"
    using solve_partial_n(1) by fastforce
  then have "size_inc (size_dec (n_cells_filled st2)) = size_inc (n_cells_filled st)"
    using swap_numbers_n[OF sw] by (simp add: size_inc_dec size_inc_mod)
  moreover have "n_cells_filled st3 = size_dec (n_cells_filled st2)"
    using swap_numbers_n[OF sb] by simp
  moreover have "i < 19"
    using swap_numbers_bounds[OF sw] by (simp add: N_Hexes_def)
  ultimately show ?case
    by (simp add: solve_measure_def)
next
  case (10 idx st sw)
  then show ?case
    by (simp add: solve_measure_def swap_numbers_n)
next
  case (11 idx st st1)
  then show ?case
    by (simp add: solve_measure_def swap_numbers_n)
qed


declare solve.simps [simp del] choose_array.simps [simp del]
  choose_array_loop.simps [simp del] deduce_from_idx.simps [simp del]
  find_needed_from.simps [simp del]

subsection \<open>Every call returns and leaves the object as it found it\<close>

lemma swap_numbers_ok:
  "i < N_Hexes \<Longrightarrow> j < N_Hexes \<Longrightarrow>
   swap_numbers i j st = Inr (st\<lparr>numbers := (numbers st)[i := numbers st ! j, j := numbers st ! i]\<rparr>)"
  by (simp add: swap_numbers_def)

lemma swap_list_twice:
  assumes "i < length xs" "j < length xs"
  shows "(xs[i := xs ! j, j := xs ! i])[i := xs[i := xs ! j, j := xs ! i] ! j,
            j := xs[i := xs ! j, j := xs ! i] ! i] = xs"
  using assms by (auto simp: list_eq_iff_nth_eq nth_list_update)

lemma find_needed_from_total:
  "i \<le> N_Hexes \<Longrightarrow> \<exists>k. find_needed_from i st v = Inr k \<and> i \<le> k \<and> k \<le> N_Hexes"
proof (induction i st v rule: find_needed_from.induct)
  case (1 i st v)
  show ?case
  proof (cases "i = N_Hexes")
    case True
    then show ?thesis by (simp add: find_needed_from.simps)
  next
    case False
    with 1(2) have lt: "i < N_Hexes" by simp
    show ?thesis
    proof (cases "numbers st ! i = v")
      case True
      with lt show ?thesis by (simp add: find_needed_from.simps[of i])
    next
      case neq: False
      from 1(1)[OF False _ neq] lt obtain k where
        "find_needed_from (i + 1) st v = Inr k" "i + 1 \<le> k" "k \<le> N_Hexes"
        by auto
      with lt neq show ?thesis by (simp add: find_needed_from.simps[of i])
    qed
  qed
qed

lemma plan_step_Deduce_idxs:
  "plan_step n = Deduce idxs \<Longrightarrow> n < N_Hexes \<and> (\<forall>i \<in> set idxs. i < n)"
  by (auto simp: plan_step_def N_Hexes_def split: if_splits)

lemma find_needed_from_idxs_total:
  assumes "plan_step (n_cells_filled st) = Deduce idxs"
  shows "\<exists>k. find_needed_from_idxs st idxs = Inr k \<and> n_cells_filled st \<le> k \<and> k \<le> N_Hexes"
proof -
  from plan_step_Deduce_idxs[OF assms]
  have n: "n_cells_filled st < N_Hexes" and idxs: "\<forall>i \<in> set idxs. i < N_Hexes"
    by auto
  from n have "n_cells_filled st \<le> N_Hexes" by simp
  from find_needed_from_total[OF this] idxs show ?thesis
    by (simp add: find_needed_from_idxs_def find_needed_def)
qed

lemma restore:
  "wf_state st \<longrightarrow> (\<exists>out. solve rs st = Inr (st, out))"
  "wf_state st \<and> n_cells_filled st < N_Hexes \<longrightarrow> (\<exists>out. choose_array rs st = Inr (st, out))"
  "wf_state st \<and> n_cells_filled st < N_Hexes \<and> i \<le> N_Hexes
     \<longrightarrow> (\<exists>out. choose_array_loop rs i st = Inr (st, out))"
  "wf_state st \<and> (idx = N_Hexes \<or> idx < N_Hexes \<and> n_cells_filled st < N_Hexes)
     \<longrightarrow> (\<exists>out. deduce_from_idx rs idx st = Inr (st, out))"
proof (induction rs st and rs st and rs i st and rs idx st
       rule: solve_choose_array_choose_array_loop_deduce_from_idx.induct)
  case (1 rs st)
  show ?case
  proof
    assume wf: "wf_state st"
    show "\<exists>out. solve rs st = Inr (st, out)"
    proof (cases "plan_step (n_cells_filled st)")
      case Choose
      from plan_step_Choose[OF Choose] have "n_cells_filled st < N_Hexes"
        by (simp add: N_Hexes_def)
      with 1(1)[OF Choose] wf Choose show ?thesis
        by (simp add: solve.simps)
    next
      case (Deduce idxs)
      from find_needed_from_idxs_total[OF Deduce] obtain k where
        k: "find_needed_from_idxs st idxs = Inr k" "n_cells_filled st \<le> k" "k \<le> N_Hexes"
        by blast
      from plan_step_Deduce_idxs[OF Deduce] have "n_cells_filled st < N_Hexes" by simp
      with 1(2)[OF Deduce k(1)] wf k(3)
      have "\<exists>out. deduce_from_idx rs k st = Inr (st, out)"
        by (cases "k = N_Hexes") auto
      with Deduce k(1) show ?thesis by (simp add: solve.simps)
    next
      case Terminal
      then show ?thesis by (simp add: solve.simps)
    next
      case NoCase
      then show ?thesis by (simp add: solve.simps)
    qed
  qed
next
  case (2 rs st)
  show ?case
  proof
    assume a: "wf_state st \<and> n_cells_filled st < N_Hexes"
    let ?s1 = "st\<lparr>n_cells_filled := size_inc (n_cells_filled st)\<rparr>"
    from a have wf1: "wf_state ?s1" by (simp add: wf_state_def)
    with 2(1) obtain out1 where s1: "solve rs ?s1 = Inr (?s1, out1)" by blast
    from a have inc: "size_inc (n_cells_filled st) = Suc (n_cells_filled st)"
      by (simp add: size_inc_small N_Hexes_def)
    from a have dec: "size_dec (Suc (n_cells_filled st)) = n_cells_filled st"
      by (simp add: size_dec_Suc N_Hexes_def)
    have rst: "?s1\<lparr>n_cells_filled := size_dec (n_cells_filled ?s1)\<rparr> = st"
      by (simp add: inc dec)
    from 2(2)[OF s1 refl] a have
      "\<exists>out. choose_array_loop rs (size_inc (size_dec (n_cells_filled ?s1)))
               (?s1\<lparr>n_cells_filled := size_dec (n_cells_filled ?s1)\<rparr>) = Inr (st, out)"
      unfolding rst using inc dec by simp
    then show "\<exists>out. choose_array rs st = Inr (st, out)"
      using s1 by (auto simp: choose_array.simps[of rs st])
  qed
next
  case (3 i st)
  show ?case
  proof
    assume a: "wf_state st \<and> n_cells_filled st < N_Hexes \<and> i \<le> N_Hexes"
    show "\<exists>out. choose_array_loop CreateNew i st = Inr (st, out)"
    proof (cases "i = N_Hexes")
      case True
      then show ?thesis by (simp add: choose_array_loop.simps)
    next
      case False
      with a have lt: "i < N_Hexes" by simp
      let ?sw = "st\<lparr>numbers := (numbers st)[n_cells_filled st := numbers st ! i,
                     i := numbers st ! n_cells_filled st]\<rparr>"
      from a lt have sw: "swap_numbers (n_cells_filled st) i st = Inr ?sw"
        by (simp add: swap_numbers_ok)
      let ?s1 = "?sw\<lparr>n_cells_filled := size_inc (n_cells_filled ?sw)\<rparr>"
      from a have "wf_state ?s1" by (simp add: wf_state_def)
      with 3(1)[OF False sw] obtain out1 where s1: "solve CreateNew ?s1 = Inr (?s1, out1)"
        by blast
      from 3(2)[OF False sw s1 refl] a lt obtain out2 where
        "choose_array_loop CreateNew (i + 1) st = Inr (st, out2)" by auto
      with False sw s1 show ?thesis
        by (simp add: choose_array_loop.simps(1)[of i st])
    qed
  qed
next
  case (4 i st)
  show ?case
  proof
    assume a: "wf_state st \<and> n_cells_filled st < N_Hexes \<and> i \<le> N_Hexes"
    show "\<exists>out. choose_array_loop SwapAndSwapBack i st = Inr (st, out)"
    proof (cases "i = N_Hexes")
      case True
      then show ?thesis by (simp add: choose_array_loop.simps)
    next
      case False
      with a have lt: "i < N_Hexes" by simp
      let ?n = "n_cells_filled st"
      let ?sw = "st\<lparr>numbers := (numbers st)[?n := numbers st ! i, i := numbers st ! ?n]\<rparr>"
      from a lt have sw: "swap_numbers ?n i st = Inr ?sw"
        by (simp add: swap_numbers_ok)
      let ?s1 = "?sw\<lparr>n_cells_filled := size_inc (n_cells_filled ?sw)\<rparr>"
      from a have "wf_state ?s1" by (simp add: wf_state_def)
      with 4(1)[OF False sw] obtain out1 where s1: "solve SwapAndSwapBack ?s1 = Inr (?s1, out1)"
        by blast
      from a have inc: "size_inc ?n = Suc ?n"
        by (simp add: size_inc_small N_Hexes_def)
      from a have dec: "size_dec (Suc ?n) = ?n"
        by (simp add: size_dec_Suc N_Hexes_def)
      have rst: "?s1\<lparr>n_cells_filled := size_dec (n_cells_filled ?s1)\<rparr> = ?sw"
        by (simp add: inc dec)
      have dn: "size_dec (n_cells_filled ?s1) = ?n"
        by (simp add: inc dec)
      from a lt have "(numbers ?sw)[?n := numbers ?sw ! i, i := numbers ?sw ! ?n] = numbers st"
        using swap_list_twice[of ?n "numbers st" i] by (simp add: wf_state_def)
      then have sb: "swap_numbers (size_dec (n_cells_filled ?s1)) i
               (?s1\<lparr>n_cells_filled := size_dec (n_cells_filled ?s1)\<rparr>) = Inr st"
        unfolding rst dn using a lt by (simp add: swap_numbers_ok)
      from 4(2)[OF False sw s1 refl sb] a lt obtain out2 where
        "choose_array_loop SwapAndSwapBack (i + 1) st = Inr (st, out2)" by auto
      with False sw s1 sb show ?thesis
        by (simp add: choose_array_loop.simps(2)[of i st])
    qed
  qed
next
  case (5 idx st)
  show ?case
  proof
    assume a: "wf_state st \<and> (idx = N_Hexes \<or> idx < N_Hexes \<and> n_cells_filled st < N_Hexes)"
    show "\<exists>out. deduce_from_idx CreateNew idx st = Inr (st, out)"
    proof (cases "idx = N_Hexes")
      case True
      then show ?thesis by (simp add: deduce_from_idx.simps)
    next
      case False
      with a have lt: "idx < N_Hexes" "n_cells_filled st < N_Hexes" by auto
      let ?n = "n_cells_filled st"
      let ?sw = "st\<lparr>numbers := (numbers st)[?n := numbers st ! idx, idx := numbers st ! ?n]\<rparr>"
      from lt have sw: "swap_numbers ?n idx st = Inr ?sw"
        by (simp add: swap_numbers_ok)
      let ?s1 = "?sw\<lparr>n_cells_filled := size_inc (n_cells_filled ?sw)\<rparr>"
      from a have "wf_state ?s1" by (simp add: wf_state_def)
      with 5(1)[OF False sw] obtain out1 where s1: "solve CreateNew ?s1 = Inr (?s1, out1)"
        by blast
      with False sw show ?thesis
        by (simp add: deduce_from_idx.simps(1)[of idx st])
    qed
  qed
next
  case (6 idx st)
  show ?case
  proof
    assume a: "wf_state st \<and> (idx = N_Hexes \<or> idx < N_Hexes \<and> n_cells_filled st < N_Hexes)"
    show "\<exists>out. deduce_from_idx SwapAndSwapBack idx st = Inr (st, out)"
    proof (cases "idx = N_Hexes")
      case True
      then show ?thesis by (simp add: deduce_from_idx.simps)
    next
      case False
      with a have lt: "idx < N_Hexes" "n_cells_filled st < N_Hexes" by auto
      let ?n = "n_cells_filled st"
      let ?sw = "st\<lparr>numbers := (numbers st)[?n := numbers st ! idx, idx := numbers st ! ?n]\<rparr>"
      from lt have sw: "swap_numbers ?n idx st = Inr ?sw"
        by (simp add: swap_numbers_ok)
      let ?s1 = "?sw\<lparr>n_cells_filled := size_inc (n_cells_filled ?sw)\<rparr>"
      from a have "wf_state ?s1" by (simp add: wf_state_def)
      with 6(1)[OF False sw] obtain out1 where s1: "solve SwapAndSwapBack ?s1 = Inr (?s1, out1)"
        by blast
      from lt have inc: "size_inc ?n = Suc ?n"
        by (simp add: size_inc_small N_Hexes_def)
      from lt have dec: "size_dec (Suc ?n) = ?n"
        by (simp add: size_dec_Suc N_Hexes_def)
      have rst: "?s1\<lparr>n_cells_filled := size_dec (n_cells_filled ?s1)\<rparr> = ?sw"
        by (simp add: inc dec)
      have dn: "size_dec (n_cells_filled ?s1) = ?n"
        by (simp add: inc dec)
      from a lt have "(numbers ?sw)[?n := numbers ?sw ! idx, idx := numbers ?sw ! ?n] = numbers st"
        using swap_list_twice[of ?n "numbers st" idx] by (simp add: wf_state_def)
      then have sb: "swap_numbers (size_dec (n_cells_filled ?s1)) idx
               (?s1\<lparr>n_cells_filled := size_dec (n_cells_filled ?s1)\<rparr>) = Inr st"
        unfolding rst dn using lt by (simp add: swap_numbers_ok)
      with False sw s1 show ?thesis
        by (simp add: deduce_from_idx.simps(2)[of idx st])
    qed
  qed
qed

subsection \<open>The sink calls of a run, step by step\<close>

text \<open>
  \<^term>\<open>solve_out rs st\<close> is the sequence of boards a call of \<^verbatim>\<open>solve\<close> hands to the sink;
  \<^term>\<open>place i st\<close> is the state after \<^verbatim>\<open>std::swap(numbers[n_cells_filled], numbers[i])\<close>
  and \<^verbatim>\<open>++n_cells_filled\<close>, the state on which both strategies recurse.
\<close>

definition solve_out :: "RecursionStrategy \<Rightarrow> ArrayBoardState \<Rightarrow> u8 list list" where
  "solve_out rs st = (case solve rs st of Inr (st', out) \<Rightarrow> out | Inl e \<Rightarrow> [])"

definition place :: "nat \<Rightarrow> ArrayBoardState \<Rightarrow> ArrayBoardState" where
  "place i st =
    st\<lparr>numbers := (numbers st)[n_cells_filled st := numbers st ! i,
                                i := numbers st ! n_cells_filled st],
       n_cells_filled := Suc (n_cells_filled st)\<rparr>"

lemma wf_place: "wf_state st \<Longrightarrow> wf_state (place i st)"
  by (simp add: wf_state_def place_def)

lemma n_place: "n_cells_filled (place i st) = Suc (n_cells_filled st)"
  by (simp add: place_def)

lemma solve_returns: "wf_state st \<Longrightarrow> solve rs st = Inr (st, solve_out rs st)"
  using restore(1)[of st rs] by (auto simp: solve_out_def)

lemma swap_then_inc:
  assumes "n_cells_filled st < N_Hexes" "i < N_Hexes"
  shows "\<exists>sw. swap_numbers (n_cells_filled st) i st = Inr sw \<and>
              sw\<lparr>n_cells_filled := size_inc (n_cells_filled sw)\<rparr> = place i st"
  using assms by (simp add: swap_numbers_ok place_def size_inc_small N_Hexes_def)

lemma dec_then_swap:
  assumes "wf_state st" "n_cells_filled st < N_Hexes" "i < N_Hexes"
  shows "swap_numbers (size_dec (n_cells_filled (place i st))) i
           ((place i st)\<lparr>n_cells_filled := size_dec (n_cells_filled (place i st))\<rparr>) = Inr st"
proof -
  let ?n = "n_cells_filled st"
  let ?xs = "numbers st"
  from assms have dec: "size_dec (Suc ?n) = ?n"
    by (simp add: size_dec_Suc N_Hexes_def)
  from assms have "(?xs[?n := ?xs ! i, i := ?xs ! ?n])
      [?n := ?xs[?n := ?xs ! i, i := ?xs ! ?n] ! i, i := ?xs[?n := ?xs ! i, i := ?xs ! ?n] ! ?n] = ?xs"
    using swap_list_twice[of ?n ?xs i] by (simp add: wf_state_def)
  with assms show ?thesis
    by (simp add: place_def dec swap_numbers_ok)
qed

lemma loop_CreateNew_char:
  assumes "wf_state st" "n_cells_filled st < N_Hexes"
  shows "i \<le> N_Hexes \<Longrightarrow> choose_array_loop CreateNew i st =
           Inr (st, concat (map (\<lambda>j. solve_out CreateNew (place j st)) [i..<N_Hexes]))"
proof (induction "N_Hexes - i" arbitrary: i)
  case 0
  then have "i = N_Hexes" by simp
  then show ?case by (simp add: choose_array_loop.simps)
next
  case (Suc k)
  then have lt: "i < N_Hexes" and ne: "i \<noteq> N_Hexes" by auto
  from swap_then_inc[OF assms(2) lt] obtain sw where
    sw: "swap_numbers (n_cells_filled st) i st = Inr sw"
    and pl: "sw\<lparr>n_cells_filled := size_inc (n_cells_filled sw)\<rparr> = place i st"
    by blast
  have s1: "solve CreateNew (place i st) = Inr (place i st, solve_out CreateNew (place i st))"
    by (rule solve_returns[OF wf_place[OF assms(1)]])
  have l: "choose_array_loop CreateNew (i + 1) st =
      Inr (st, concat (map (\<lambda>j. solve_out CreateNew (place j st)) [i + 1..<N_Hexes]))"
    using Suc(1)[of "i + 1"] Suc(2) lt by simp
  have up: "[i..<N_Hexes] = i # [i + 1..<N_Hexes]"
    using lt by (simp add: upt_conv_Cons)
  show ?case
    unfolding choose_array_loop.simps(1)[of i st] using ne sw pl s1 l up by simp
qed

lemma loop_SwapAndSwapBack_char:
  assumes "wf_state st" "n_cells_filled st < N_Hexes"
  shows "i \<le> N_Hexes \<Longrightarrow> choose_array_loop SwapAndSwapBack i st =
           Inr (st, concat (map (\<lambda>j. solve_out SwapAndSwapBack (place j st)) [i..<N_Hexes]))"
proof (induction "N_Hexes - i" arbitrary: i)
  case 0
  then have "i = N_Hexes" by simp
  then show ?case by (simp add: choose_array_loop.simps)
next
  case (Suc k)
  then have lt: "i < N_Hexes" and ne: "i \<noteq> N_Hexes" by auto
  from swap_then_inc[OF assms(2) lt] obtain sw where
    sw: "swap_numbers (n_cells_filled st) i st = Inr sw"
    and pl: "sw\<lparr>n_cells_filled := size_inc (n_cells_filled sw)\<rparr> = place i st"
    by blast
  have s1: "solve SwapAndSwapBack (place i st) =
      Inr (place i st, solve_out SwapAndSwapBack (place i st))"
    by (rule solve_returns[OF wf_place[OF assms(1)]])
  note sb = dec_then_swap[OF assms lt]
  have l: "choose_array_loop SwapAndSwapBack (i + 1) st =
      Inr (st, concat (map (\<lambda>j. solve_out SwapAndSwapBack (place j st)) [i + 1..<N_Hexes]))"
    using Suc(1)[of "i + 1"] Suc(2) lt by simp
  have up: "[i..<N_Hexes] = i # [i + 1..<N_Hexes]"
    using lt by (simp add: upt_conv_Cons)
  show ?case
    unfolding choose_array_loop.simps(2)[of i st] using ne sw pl s1 sb l up by simp
qed

lemma loop_char:
  assumes "wf_state st" "n_cells_filled st < N_Hexes" "i \<le> N_Hexes"
  shows "choose_array_loop rs i st =
           Inr (st, concat (map (\<lambda>j. solve_out rs (place j st)) [i..<N_Hexes]))"
  using assms loop_CreateNew_char loop_SwapAndSwapBack_char by (cases rs) auto

lemma place_self:
  "n_cells_filled st < N_Hexes \<Longrightarrow>
   st\<lparr>n_cells_filled := size_inc (n_cells_filled st)\<rparr> = place (n_cells_filled st) st"
  by (simp add: place_def size_inc_small N_Hexes_def)

lemma choose_char:
  assumes "wf_state st" "n_cells_filled st < N_Hexes"
  shows "choose_array rs st =
           Inr (st, concat (map (\<lambda>j. solve_out rs (place j st)) [n_cells_filled st..<N_Hexes]))"
proof -
  let ?n = "n_cells_filled st"
  have s1: "solve rs (place ?n st) = Inr (place ?n st, solve_out rs (place ?n st))"
    by (rule solve_returns[OF wf_place[OF assms(1)]])
  from assms(2) have dec: "size_dec (Suc ?n) = ?n" and inc: "size_inc ?n = Suc ?n"
    by (simp_all add: size_dec_Suc size_inc_small N_Hexes_def)
  have rst: "(place ?n st)\<lparr>n_cells_filled := ?n\<rparr> = st"
    using assms by (simp add: place_def wf_state_def)
  have l: "choose_array_loop rs (Suc ?n) st =
      Inr (st, concat (map (\<lambda>j. solve_out rs (place j st)) [Suc ?n..<N_Hexes]))"
    using loop_char[OF assms, of "Suc ?n" rs] assms(2) by simp
  have up: "[?n..<N_Hexes] = ?n # [Suc ?n..<N_Hexes]"
    using assms(2) by (simp add: upt_conv_Cons)
  show ?thesis
    unfolding choose_array.simps[of rs st] place_self[OF assms(2)]
    by (simp add: s1 rst n_place dec inc l up)
qed

lemma deduce_from_idx_char:
  assumes "wf_state st" "n_cells_filled st < N_Hexes" "idx < N_Hexes"
  shows "deduce_from_idx rs idx st = Inr (st, solve_out rs (place idx st))"
proof -
  from assms(3) have ne: "idx \<noteq> N_Hexes" by simp
  from swap_then_inc[OF assms(2,3)] obtain sw where
    sw: "swap_numbers (n_cells_filled st) idx st = Inr sw"
    and pl: "sw\<lparr>n_cells_filled := size_inc (n_cells_filled sw)\<rparr> = place idx st"
    by blast
  have s1: "solve rs (place idx st) = Inr (place idx st, solve_out rs (place idx st))"
    by (rule solve_returns[OF wf_place[OF assms(1)]])
  note sb = dec_then_swap[OF assms]
  show ?thesis
  proof (cases rs)
    case CreateNew
    with ne sw pl s1 show ?thesis
      by (simp add: deduce_from_idx.simps(1)[of idx st])
  next
    case SwapAndSwapBack
    with ne sw pl s1 sb show ?thesis
      by (simp add: deduce_from_idx.simps(2)[of idx st])
  qed
qed

lemma deduce_from_idx_none: "deduce_from_idx rs N_Hexes st = Inr (st, [])"
  by (cases rs) (simp_all add: deduce_from_idx.simps)

lemma solve_out_Choose:
  assumes "wf_state st" "plan_step (n_cells_filled st) = Choose"
  shows "solve_out rs st =
           concat (map (\<lambda>j. solve_out rs (place j st)) [n_cells_filled st..<N_Hexes])"
proof -
  from plan_step_Choose[OF assms(2)] have "n_cells_filled st < N_Hexes"
    by (simp add: N_Hexes_def)
  from choose_char[OF assms(1) this, of rs] assms(2) show ?thesis
    by (simp add: solve_out_def solve.simps[of rs st])
qed

lemma solve_out_Deduce:
  assumes "wf_state st" "plan_step (n_cells_filled st) = Deduce idxs"
    "find_needed_from_idxs st idxs = Inr k"
  shows "solve_out rs st = (if k = N_Hexes then [] else solve_out rs (place k st))"
proof -
  from plan_step_Deduce_idxs[OF assms(2)] have n: "n_cells_filled st < N_Hexes" by simp
  from find_needed_from_idxs_total[OF assms(2)] assms(3) have k: "k \<le> N_Hexes" by auto
  show ?thesis
  proof (cases "k = N_Hexes")
    case True
    with assms show ?thesis
      by (simp add: solve_out_def solve.simps[of rs st] deduce_from_idx_none)
  next
    case False
    with k have "k < N_Hexes" by simp
    from deduce_from_idx_char[OF assms(1) n this, of rs] assms False show ?thesis
      by (simp add: solve_out_def solve.simps[of rs st])
  qed
qed

lemma solve_out_Terminal:
  "plan_step (n_cells_filled st) = Terminal \<Longrightarrow>
   solve_out rs st = (if spiral_solution_is_correct (numbers st) then [numbers st] else [])"
  by (simp add: solve_out_def solve.simps[of rs st])

lemma solve_out_NoCase:
  "plan_step (n_cells_filled st) = NoCase \<Longrightarrow> solve_out rs st = []"
  by (simp add: solve_out_def solve.simps[of rs st])

lemma solve_out_strategy:
  "wf_state st \<Longrightarrow> solve_out SwapAndSwapBack st = solve_out CreateNew st"
proof (induction "N_Hexes - n_cells_filled st" arbitrary: st rule: less_induct)
  case less
  show ?case
  proof (cases "plan_step (n_cells_filled st)")
    case Choose
    from plan_step_Choose[OF Choose] have n: "n_cells_filled st < N_Hexes"
      by (simp add: N_Hexes_def)
    have "solve_out SwapAndSwapBack (place j st) = solve_out CreateNew (place j st)" for j
      using less(1)[of "place j st"] n less(2) by (simp add: n_place wf_place)
    then show ?thesis
      by (simp add: solve_out_Choose[OF less(2) Choose])
  next
    case (Deduce idxs)
    from plan_step_Deduce_idxs[OF Deduce] have n: "n_cells_filled st < N_Hexes" by simp
    from find_needed_from_idxs_total[OF Deduce] obtain k where
      k: "find_needed_from_idxs st idxs = Inr k" by blast
    have "solve_out SwapAndSwapBack (place k st) = solve_out CreateNew (place k st)"
      using less(1)[of "place k st"] n less(2) by (simp add: n_place wf_place)
    then show ?thesis
      by (simp add: solve_out_Deduce[OF less(2) Deduce k])
  next
    case Terminal
    then show ?thesis by (simp add: solve_out_Terminal)
  next
    case NoCase
    then show ?thesis by (simp add: solve_out_NoCase)
  qed
qed

section \<open>Strategy equivalence and the restore invariant\<close>

lemma choose_array_out_of_bounds:
  assumes "wf_state st" "N_Hexes \<le> n_cells_filled st" "n_cells_filled st < size_modulus"
  shows "choose_array rs st = Inl OutOfBounds"
proof -
  let ?n = "n_cells_filled st"
  let ?s1 = "st\<lparr>n_cells_filled := size_inc ?n\<rparr>"
  from assms(1) have "wf_state ?s1" by (simp add: wf_state_def)
  from solve_returns[OF this, of rs] have s1: "solve rs ?s1 = Inr (?s1, solve_out rs ?s1)" .
  from assms(3) have dec: "size_dec (size_inc ?n) = ?n"
    by (simp add: size_dec_inc)
  have ne: "size_inc ?n \<noteq> N_Hexes"
  proof (cases "Suc ?n = size_modulus")
    case True
    then show ?thesis by (simp add: size_inc_def N_Hexes_def)
  next
    case False
    with assms(3) have "Suc ?n < size_modulus" by simp
    then have "size_inc ?n = Suc ?n" by (simp add: size_inc_def)
    with assms(2) show ?thesis by simp
  qed
  from assms(2) have sw: "swap_numbers ?n (size_inc ?n) st = Inl OutOfBounds"
    by (simp add: swap_numbers_def)
  have "choose_array_loop rs (size_inc ?n) st = Inl OutOfBounds"
    using ne sw by (cases rs) (simp_all add: choose_array_loop.simps)
  then show ?thesis
    by (simp add: choose_array.simps[of rs st] s1 dec)
qed

lemma deduce_from_idx_out_of_bounds:
  assumes "idx \<noteq> N_Hexes" "\<not> (n_cells_filled st < N_Hexes \<and> idx < N_Hexes)"
  shows "deduce_from_idx rs idx st = Inl OutOfBounds"
proof -
  from assms(2) have "swap_numbers (n_cells_filled st) idx st = Inl OutOfBounds"
    by (auto simp: swap_numbers_def)
  with assms(1) show ?thesis
    by (cases rs) (simp_all add: deduce_from_idx.simps)
qed

text \<open>
  C3.  On every well-formed state, \<^verbatim>\<open>solve<CreateNew>\<close> and \<^verbatim>\<open>solve<SwapAndSwapBack>\<close>
  both return, and they call the sink with the same boards in the same order.
\<close>

theorem C3_strategy_equivalence:
  assumes "wf_state st"
  shows "\<exists>out. solve CreateNew st = Inr (st, out) \<and> solve SwapAndSwapBack st = Inr (st, out)"
  using solve_returns[OF assms, of CreateNew] solve_returns[OF assms, of SwapAndSwapBack]
    solve_out_strategy[OF assms]
  by simp

theorem C3_strategy_equivalence_witness:
  "wf_state ArrayBoardState_init \<and>
   (\<exists>out. solve CreateNew ArrayBoardState_init = Inr (ArrayBoardState_init, out) \<and>
          solve SwapAndSwapBack ArrayBoardState_init = Inr (ArrayBoardState_init, out))"
proof -
  have wf: "wf_state ArrayBoardState_init"
    by (simp add: wf_state_def ArrayBoardState_init_def N_Hexes_def)
  from wf C3_strategy_equivalence[OF wf] show ?thesis by simp
qed

text \<open>
  C4.  With \<^verbatim>\<open>SwapAndSwapBack\<close>, on a well-formed state: \<^verbatim>\<open>solve\<close> always returns and
  leaves \<^verbatim>\<open>numbers\<close> and \<^verbatim>\<open>n_cells_filled\<close> as they were on entry; so do \<^verbatim>\<open>choose\<close> (which
  returns exactly when \<^verbatim>\<open>n_cells_filled < N_Hexes\<close>) and \<^verbatim>\<open>deduce_from_idx\<close> (which returns
  exactly when its index is \<^verbatim>\<open>N_Hexes\<close> or both indices of the swap are inside the
  array); a failed deduction returns at once, with the state untouched and the sink
  not called.
\<close>

theorem C4_restore_invariant:
  assumes "wf_state st"
  shows "(\<exists>out. solve SwapAndSwapBack st = Inr (st, out)) \<and>
    (n_cells_filled st < N_Hexes \<longrightarrow> (\<exists>out. choose_array SwapAndSwapBack st = Inr (st, out))) \<and>
    (n_cells_filled st < N_Hexes \<and> idx < N_Hexes \<longrightarrow>
       (\<exists>out. deduce_from_idx SwapAndSwapBack idx st = Inr (st, out))) \<and>
    deduce_from_idx SwapAndSwapBack N_Hexes st = Inr (st, []) \<and>
    (\<forall>idxs. plan_step (n_cells_filled st) = Deduce idxs \<and>
       find_needed_from_idxs st idxs = Inr N_Hexes \<longrightarrow> solve SwapAndSwapBack st = Inr (st, [])) \<and>
    (\<forall>st' out. n_cells_filled st < size_modulus \<and>
       choose_array SwapAndSwapBack st = Inr (st', out) \<longrightarrow> st' = st) \<and>
    (\<forall>st' out. deduce_from_idx SwapAndSwapBack idx st = Inr (st', out) \<longrightarrow> st' = st)"
proof (intro conjI allI impI)
  show "\<exists>out. solve SwapAndSwapBack st = Inr (st, out)"
    using solve_returns[OF assms] by blast
next
  assume "n_cells_filled st < N_Hexes"
  from choose_char[OF assms this]
  show "\<exists>out. choose_array SwapAndSwapBack st = Inr (st, out)" by blast
next
  assume "n_cells_filled st < N_Hexes \<and> idx < N_Hexes"
  then show "\<exists>out. deduce_from_idx SwapAndSwapBack idx st = Inr (st, out)"
    using deduce_from_idx_char[OF assms] by blast
next
  show "deduce_from_idx SwapAndSwapBack N_Hexes st = Inr (st, [])"
    by (rule deduce_from_idx_none)
next
  fix idxs
  assume "plan_step (n_cells_filled st) = Deduce idxs \<and>
    find_needed_from_idxs st idxs = Inr N_Hexes"
  then show "solve SwapAndSwapBack st = Inr (st, [])"
    by (simp add: solve.simps[of SwapAndSwapBack st] deduce_from_idx_none)
next
  fix st' out
  assume a: "n_cells_filled st < size_modulus \<and>
    choose_array SwapAndSwapBack st = Inr (st', out)"
  show "st' = st"
  proof (cases "n_cells_filled st < N_Hexes")
    case True
    from choose_char[OF assms True, of SwapAndSwapBack] a show ?thesis by simp
  next
    case False
    then have "N_Hexes \<le> n_cells_filled st" by simp
    from choose_array_out_of_bounds[OF assms this, of SwapAndSwapBack] a show ?thesis by simp
  qed
next
  fix st' out
  assume a: "deduce_from_idx SwapAndSwapBack idx st = Inr (st', out)"
  show "st' = st"
  proof (cases "idx = N_Hexes")
    case True
    with a show ?thesis by (simp add: deduce_from_idx_none)
  next
    case False
    show ?thesis
    proof (cases "n_cells_filled st < N_Hexes \<and> idx < N_Hexes")
      case True
      with deduce_from_idx_char[OF assms, of idx SwapAndSwapBack] a show ?thesis by simp
    next
      case oob: False
      from deduce_from_idx_out_of_bounds[OF False oob, of SwapAndSwapBack] a
      show ?thesis by simp
    qed
  qed
qed

theorem C4_restore_invariant_witness:
  "wf_state ArrayBoardState_init \<and>
   (\<exists>out. solve SwapAndSwapBack ArrayBoardState_init = Inr (ArrayBoardState_init, out)) \<and>
   (\<exists>out. choose_array SwapAndSwapBack ArrayBoardState_init = Inr (ArrayBoardState_init, out)) \<and>
   (\<exists>out. deduce_from_idx SwapAndSwapBack 5 ArrayBoardState_init
           = Inr (ArrayBoardState_init, out)) \<and>
   plan_step 2 = Deduce [0, 1] \<and>
   find_needed_from_idxs (ArrayBoardState_init\<lparr>n_cells_filled := 2\<rparr>) [0, 1] = Inr N_Hexes \<and>
   solve SwapAndSwapBack (ArrayBoardState_init\<lparr>n_cells_filled := 2\<rparr>)
     = Inr (ArrayBoardState_init\<lparr>n_cells_filled := 2\<rparr>, [])"
proof -
  have wf: "wf_state ArrayBoardState_init"
    by (simp add: wf_state_def ArrayBoardState_init_def N_Hexes_def)
  have wf2: "wf_state (ArrayBoardState_init\<lparr>n_cells_filled := 2\<rparr>)"
    by (simp add: wf_state_def ArrayBoardState_init_def N_Hexes_def)
  have n: "n_cells_filled ArrayBoardState_init < N_Hexes" "(5::nat) < N_Hexes"
    by (simp_all add: ArrayBoardState_init_def N_Hexes_def)
  have p: "plan_step (n_cells_filled (ArrayBoardState_init\<lparr>n_cells_filled := 2\<rparr>)) = Deduce [0, 1]"
    by (simp add: plan_step_def)
  have f: "find_needed_from_idxs (ArrayBoardState_init\<lparr>n_cells_filled := 2\<rparr>) [0, 1] = Inr N_Hexes"
    by (simp add: find_needed_from_idxs_def find_needed_def ArrayBoardState_init_def upt_rec
        N_Hexes_def sum_of_def Required_Sum_def find_needed_from.simps)
  from C4_restore_invariant[OF wf, of 5] n
  have a: "(\<exists>out. solve SwapAndSwapBack ArrayBoardState_init = Inr (ArrayBoardState_init, out))"
    "(\<exists>out. choose_array SwapAndSwapBack ArrayBoardState_init = Inr (ArrayBoardState_init, out))"
    "(\<exists>out. deduce_from_idx SwapAndSwapBack 5 ArrayBoardState_init
           = Inr (ArrayBoardState_init, out))"
    by blast+
  from C4_restore_invariant[OF wf2, of 0] p f
  have b: "solve SwapAndSwapBack (ArrayBoardState_init\<lparr>n_cells_filled := 2\<rparr>)
     = Inr (ArrayBoardState_init\<lparr>n_cells_filled := 2\<rparr>, [])"
    by blast
  from wf a b f show ?thesis by (simp add: plan_step_def)
qed

section \<open>The pool search of the array engine\<close>

lemma in_set_drop_nth:
  "x \<in> set (drop n xs) \<longleftrightarrow> (\<exists>j. n \<le> j \<and> j < length xs \<and> xs ! j = x)"
proof
  assume "x \<in> set (drop n xs)"
  then obtain k where k: "k < length (drop n xs)" "drop n xs ! k = x"
    by (auto simp: in_set_conv_nth)
  then have "n \<le> n + k \<and> n + k < length xs \<and> xs ! (n + k) = x"
    by auto
  then show "\<exists>j. n \<le> j \<and> j < length xs \<and> xs ! j = x" by blast
next
  assume "\<exists>j. n \<le> j \<and> j < length xs \<and> xs ! j = x"
  then obtain j where j: "n \<le> j" "j < length xs" "xs ! j = x" by blast
  then have "j - n < length (drop n xs)" "drop n xs ! (j - n) = x"
    by auto
  then show "x \<in> set (drop n xs)"
    by (metis nth_mem)
qed

lemma find_needed_from_spec:
  "i \<le> N_Hexes \<Longrightarrow>
   \<exists>k. find_needed_from i st v = Inr k \<and> i \<le> k \<and> k \<le> N_Hexes \<and>
       (k < N_Hexes \<longrightarrow> numbers st ! k = v) \<and>
       (\<forall>j. i \<le> j \<and> j < k \<longrightarrow> numbers st ! j \<noteq> v)"
proof (induction i st v rule: find_needed_from.induct)
  case (1 i st v)
  show ?case
  proof (cases "i = N_Hexes")
    case True
    then show ?thesis by (auto simp: find_needed_from.simps)
  next
    case False
    with 1(2) have lt: "i < N_Hexes" by simp
    show ?thesis
    proof (cases "numbers st ! i = v")
      case True
      with lt show ?thesis by (auto simp: find_needed_from.simps[of i])
    next
      case neq: False
      from 1(1)[OF False _ neq] lt obtain k where
        k: "find_needed_from (i + 1) st v = Inr k" "i + 1 \<le> k" "k \<le> N_Hexes"
        "k < N_Hexes \<longrightarrow> numbers st ! k = v"
        "\<forall>j. i + 1 \<le> j \<and> j < k \<longrightarrow> numbers st ! j \<noteq> v"
        by auto
      have "\<forall>j. i \<le> j \<and> j < k \<longrightarrow> numbers st ! j \<noteq> v"
      proof (intro allI impI)
        fix j assume "i \<le> j \<and> j < k"
        then show "numbers st ! j \<noteq> v"
          using neq k(5) by (cases "j = i") auto
      qed
      with lt neq k show ?thesis by (simp add: find_needed_from.simps[of i])
    qed
  qed
qed

lemma find_needed_found:
  assumes "wf_state st" "n_cells_filled st \<le> N_Hexes"
    "v \<in> set (drop (n_cells_filled st) (numbers st))"
  shows "\<exists>i. find_needed st v = Inr i \<and> n_cells_filled st \<le> i \<and> i < N_Hexes \<and>
             numbers st ! i = v"
proof -
  from find_needed_from_spec[OF assms(2), of st v] obtain k where
    k: "find_needed st v = Inr k" "n_cells_filled st \<le> k" "k \<le> N_Hexes"
    "k < N_Hexes \<longrightarrow> numbers st ! k = v"
    "\<forall>j. n_cells_filled st \<le> j \<and> j < k \<longrightarrow> numbers st ! j \<noteq> v"
    by (auto simp: find_needed_def)
  from assms(1,3) obtain j where
    j: "n_cells_filled st \<le> j" "j < N_Hexes" "numbers st ! j = v"
    by (auto simp: in_set_drop_nth wf_state_def)
  have "k < N_Hexes"
  proof (rule ccontr)
    assume "\<not> k < N_Hexes"
    with k(3) have "k = N_Hexes" by simp
    with k(5) j show False by auto
  qed
  with k show ?thesis by auto
qed

lemma find_needed_absent:
  assumes "wf_state st" "n_cells_filled st \<le> N_Hexes"
    "v \<notin> set (drop (n_cells_filled st) (numbers st))"
  shows "find_needed st v = Inr N_Hexes"
proof -
  from find_needed_from_spec[OF assms(2), of st v] obtain k where
    k: "find_needed st v = Inr k" "n_cells_filled st \<le> k" "k \<le> N_Hexes"
    "k < N_Hexes \<longrightarrow> numbers st ! k = v"
    by (auto simp: find_needed_def)
  have "\<not> k < N_Hexes"
  proof
    assume lt: "k < N_Hexes"
    with k assms(1) have "v \<in> set (drop (n_cells_filled st) (numbers st))"
      by (auto simp: in_set_drop_nth wf_state_def)
    with assms(3) show False by simp
  qed
  with k show ?thesis by simp
qed


lemma iota_19:
  "map of_nat [1..<20] =
    [1, 2, 3, 4, 5, 6, 7, 8, 9, 10, 11, 12, 13, 14, 15, 16, 17, 18, 19 :: u8]"
  by (simp add: upt_rec)

text \<open>
  C10.  On a well-formed state with \<^verbatim>\<open>n_cells_filled <= N_Hexes\<close>: \<^verbatim>\<open>find_needed(v)\<close> returns
  an index of the unfilled suffix holding \<^verbatim>\<open>v\<close> when \<^verbatim>\<open>v\<close> occurs there, and \<^verbatim>\<open>N_Hexes\<close>
  when it does not; with index arguments inside the array the deduction path
  (\<^verbatim>\<open>find_needed_from_idxs\<close>, then \<^verbatim>\<open>deduce_from_idx\<close>, in either strategy) returns without
  any access outside the array; \<^verbatim>\<open>deduce_from_idx\<close> does nothing for the index \<^verbatim>\<open>N_Hexes\<close>;
  and when the index is another one, the swap puts into cell \<^verbatim>\<open>n_cells_filled\<close> the value
  of a cell of the available segment.
\<close>

theorem C10_find_needed_in_bounds:
  assumes "wf_state st" "n_cells_filled st \<le> N_Hexes"
  shows "(v \<in> set (drop (n_cells_filled st) (numbers st)) \<longrightarrow>
      (\<exists>i. find_needed st v = Inr i \<and> n_cells_filled st \<le> i \<and> i < N_Hexes \<and>
           numbers st ! i = v)) \<and>
    (v \<notin> set (drop (n_cells_filled st) (numbers st)) \<longrightarrow> find_needed st v = Inr N_Hexes) \<and>
    ((\<forall>i \<in> set idxs. i < N_Hexes) \<longrightarrow>
      (\<exists>k out. find_needed_from_idxs st idxs = Inr k \<and>
         deduce_from_idx rs k st = Inr (st, out) \<and>
         (k \<noteq> N_Hexes \<longrightarrow>
            n_cells_filled st \<le> k \<and> k < N_Hexes \<and>
            numbers st ! k \<in> set (drop (n_cells_filled st) (numbers st)) \<and>
            (\<exists>sw. swap_numbers (n_cells_filled st) k st = Inr sw \<and>
                  numbers sw ! n_cells_filled st = numbers st ! k)))) \<and>
    deduce_from_idx rs N_Hexes st = Inr (st, [])"
proof (intro conjI impI)
  assume "v \<in> set (drop (n_cells_filled st) (numbers st))"
  from find_needed_found[OF assms this]
  show "\<exists>i. find_needed st v = Inr i \<and> n_cells_filled st \<le> i \<and> i < N_Hexes \<and>
             numbers st ! i = v" .
next
  assume "v \<notin> set (drop (n_cells_filled st) (numbers st))"
  from find_needed_absent[OF assms this] show "find_needed st v = Inr N_Hexes" .
next
  show "deduce_from_idx rs N_Hexes st = Inr (st, [])" by (rule deduce_from_idx_none)
next
  assume idxs: "\<forall>i \<in> set idxs. i < N_Hexes"
  let ?n = "n_cells_filled st"
  from find_needed_from_spec[OF assms(2), of st
      "word_of_int (uint Required_Sum - sum_of (numbers st) idxs)"]
  obtain k where
    "find_needed st (word_of_int (uint Required_Sum - sum_of (numbers st) idxs)) = Inr k"
    "?n \<le> k" "k \<le> N_Hexes"
    unfolding find_needed_def by blast
  with idxs have k: "find_needed_from_idxs st idxs = Inr k" "?n \<le> k" "k \<le> N_Hexes"
    unfolding find_needed_from_idxs_def by simp_all
  show "\<exists>k out. find_needed_from_idxs st idxs = Inr k \<and>
         deduce_from_idx rs k st = Inr (st, out) \<and>
         (k \<noteq> N_Hexes \<longrightarrow>
            ?n \<le> k \<and> k < N_Hexes \<and>
            numbers st ! k \<in> set (drop ?n (numbers st)) \<and>
            (\<exists>sw. swap_numbers ?n k st = Inr sw \<and> numbers sw ! ?n = numbers st ! k))"
  proof (cases "k = N_Hexes")
    case True
    with k(1) show ?thesis by (auto simp: deduce_from_idx_none)
  next
    case False
    with k have lt: "k < N_Hexes" "?n < N_Hexes" by auto
    from deduce_from_idx_char[OF assms(1) lt(2) lt(1), of rs]
    have d: "deduce_from_idx rs k st = Inr (st, solve_out rs (place k st))" .
    from lt k(2) assms(1) have m: "numbers st ! k \<in> set (drop ?n (numbers st))"
      by (auto simp: in_set_drop_nth wf_state_def)
    from lt assms(1) have
      "\<exists>sw. swap_numbers ?n k st = Inr sw \<and> numbers sw ! ?n = numbers st ! k"
      by (auto simp: swap_numbers_ok wf_state_def nth_list_update)
    with k d m lt show ?thesis by blast
  qed
qed

definition filled_two :: ArrayBoardState where
  "filled_two = ArrayBoardState_init\<lparr>n_cells_filled := 2\<rparr>"

lemma filled_two_simps:
  "numbers filled_two =
     [1, 2, 3, 4, 5, 6, 7, 8, 9, 10, 11, 12, 13, 14, 15, 16, 17, 18, 19]"
  "n_cells_filled filled_two = 2"
  by (simp_all add: filled_two_def ArrayBoardState_init_def upt_rec)

theorem C10_find_needed_in_bounds_witness:
  "wf_state filled_two \<and> n_cells_filled filled_two \<le> N_Hexes \<and>
   5 \<in> set (drop (n_cells_filled filled_two) (numbers filled_two)) \<and>
   find_needed filled_two 5 = Inr 4 \<and>
   2 \<notin> set (drop (n_cells_filled filled_two) (numbers filled_two)) \<and>
   find_needed filled_two 2 = Inr N_Hexes \<and>
   (\<exists>k out. find_needed_from_idxs filled_two [0, 1] = Inr k \<and>
        deduce_from_idx CreateNew k filled_two = Inr (filled_two, out)) \<and>
   deduce_from_idx CreateNew N_Hexes filled_two = Inr (filled_two, [])"
proof -
  have wf: "wf_state filled_two"
    by (simp add: wf_state_def filled_two_simps N_Hexes_def)
  have n: "n_cells_filled filled_two \<le> N_Hexes"
    by (simp add: filled_two_simps N_Hexes_def)
  have m5: "5 \<in> set (drop (n_cells_filled filled_two) (numbers filled_two))"
    by (simp add: filled_two_simps)
  have m2: "2 \<notin> set (drop (n_cells_filled filled_two) (numbers filled_two))"
    by (simp add: filled_two_simps)
  have ix: "\<forall>i \<in> set [0, 1 :: nat]. i < N_Hexes"
    by (simp add: N_Hexes_def)
  have f5: "find_needed filled_two 5 = Inr 4"
    by (simp add: find_needed_def filled_two_simps find_needed_from.simps N_Hexes_def)
  note t5 = C10_find_needed_in_bounds[OF wf n, of 5 "[0, 1]" CreateNew]
  note t2 = C10_find_needed_in_bounds[OF wf n, of 2 "[0, 1]" CreateNew]
  from t2 m2 have f2: "find_needed filled_two 2 = Inr N_Hexes" by blast
  from t5 ix have d: "\<exists>k out. find_needed_from_idxs filled_two [0, 1] = Inr k \<and>
        deduce_from_idx CreateNew k filled_two = Inr (filled_two, out)"
    by blast
  from t5 have e: "deduce_from_idx CreateNew N_Hexes filled_two = Inr (filled_two, [])"
    by blast
  from wf n m5 f5 m2 f2 d e show ?thesis by blast
qed

section \<open>The step table against the spiral line table\<close>

text \<open>
  The lines of the spiral table that become fully determined when cell \<open>k\<close> is filled
  after the cells \<open>0..k-1\<close>: the lines that contain \<open>k\<close> and no later cell.
\<close>

definition completed_by :: "nat \<Rightarrow> nat list list" where
  "completed_by k = filter (\<lambda>line. k \<in> set line \<and> list_all (\<lambda>i. i \<le> k) line) spiral_lines"

lemma plan_step_Deduce_cases:
  assumes "plan_step k = Deduce idxs"
  shows "(k = 2 \<and> idxs = [0, 1]) \<or> (k = 4 \<and> idxs = [2, 3]) \<or> (k = 6 \<and> idxs = [4, 5]) \<or>
    (k = 8 \<and> idxs = [7, 6]) \<or> (k = 10 \<and> idxs = [8, 9]) \<or> (k = 11 \<and> idxs = [0, 10]) \<or>
    (k = 13 \<and> idxs = [3, 11, 12]) \<or> (k = 14 \<and> idxs = [1, 5, 13]) \<or>
    (k = 15 \<and> idxs = [3, 7, 14]) \<or> (k = 16 \<and> idxs = [5, 9, 15]) \<or>
    (k = 17 \<and> idxs = [7, 11, 16]) \<or> (k = 18 \<and> idxs = [4, 10, 14, 17])"
  using assms by (simp add: plan_step_def split: if_splits)

lemma completed_by_values:
  "completed_by 2 = [[0, 1, 2]]"
  "completed_by 4 = [[2, 3, 4]]"
  "completed_by 6 = [[4, 5, 6]]"
  "completed_by 8 = [[8, 7, 6]]"
  "completed_by 10 = [[10, 9, 8]]"
  "completed_by 11 = [[0, 11, 10]]"
  "completed_by 13 = [[11, 12, 13, 3]]"
  "completed_by 14 = [[1, 13, 14, 5]]"
  "completed_by 15 = [[3, 14, 15, 7]]"
  "completed_by 16 = [[9, 16, 15, 5]]"
  "completed_by 17 = [[1, 12, 17, 9], [11, 17, 16, 7]]"
  "completed_by 18 = [[10, 17, 18, 14, 4], [2, 13, 18, 16, 8], [0, 12, 18, 15, 6]]"
  by (simp_all add: completed_by_def spiral_lines_def)

text \<open>
  C6, as stated, fails: filling cell 17 completes two lines of the spiral table and
  filling cell 18 completes three.
\<close>

theorem C6_counterexample:
  "plan_step 17 = Deduce [7, 11, 16] \<and>
   completed_by 17 = [[1, 12, 17, 9], [11, 17, 16, 7]] \<and>
   plan_step 18 = Deduce [4, 10, 14, 17] \<and>
   completed_by 18 = [[10, 17, 18, 14, 4], [2, 13, 18, 16, 8], [0, 12, 18, 15, 6]]"
  by (simp add: completed_by_values plan_step_def)

text \<open>
  C6, amended.  Every deduce step of the table is a fill position that completes at
  least one line of the spiral table: exactly one at the positions 2, 4, 6, 8, 10, 11,
  13, 14, 15 and 16, two at 17 and three at 18.  The indices of the step are distinct,
  all below the position (so already filled), and are precisely the other cells of one
  of the lines completed there.
\<close>

theorem C6_deduce_steps_close_a_line:
  assumes "plan_step k = Deduce idxs"
  shows "(\<exists>line \<in> set (completed_by k). set idxs = set line - {k}) \<and>
    distinct idxs \<and> (\<forall>i \<in> set idxs. i < k) \<and>
    length (completed_by k) = (if k = 17 then 2 else if k = 18 then 3 else 1)"
  using plan_step_Deduce_cases[OF assms]
  by (elim disjE conjE) (simp_all add: completed_by_values insert_Diff_if insert_commute)

theorem C6_deduce_steps_close_a_line_witness:
  "plan_step 13 = Deduce [3, 11, 12] \<and>
   completed_by 13 = [[11, 12, 13, 3]] \<and>
   set [3, 11, 12] = set [11, 12, 13, 3] - {13 :: nat} \<and>
   length (completed_by 13) = 1"
proof -
  have p: "plan_step 13 = Deduce [3, 11, 12]" by (simp add: plan_step_def)
  from C6_deduce_steps_close_a_line[OF p] have "length (completed_by 13) = 1" by simp
  with p show ?thesis by (simp add: completed_by_values insert_Diff_if insert_commute)
qed

section \<open>The terminal validators\<close>

definition sample_board :: "u8 list" where
  "sample_board = [1, 2, 3, 4, 5, 6, 7, 8, 9, 10, 11, 12, 13, 14, 15, 16, 17, 18, 19]"

text \<open>
  C9, as stated, fails for \<^verbatim>\<open>CheckHardcoded::is_solution\<close>: a call increments the static
  \<^verbatim>\<open>n_attempts\<close>, and a second call on the same board can end the process instead of
  returning a boolean.
\<close>

theorem C9_counterexample:
  "CheckHardcoded_is_solution sample_board Globals_init
     = Returned False (Globals_init\<lparr>n_attempts := 1\<rparr>) \<and>
   Globals_init\<lparr>n_attempts := 1\<rparr> \<noteq> Globals_init \<and>
   CheckHardcoded_is_solution sample_board (Globals_init\<lparr>n_attempts := 99999998\<rparr>)
     = Returned False (Globals_init\<lparr>n_attempts := 99999999\<rparr>) \<and>
   CheckHardcoded_is_solution sample_board (Globals_init\<lparr>n_attempts := 99999999\<rparr>)
     = Exited (Globals_init\<lparr>n_attempts := 100000000,
                 cout := [Attempts 100000000, Stopping]\<rparr>)"
  by (simp add: CheckHardcoded_is_solution_def Globals_init_def size_inc_def size_modulus_def
      sample_board_def hex_lines_def sum_correct_def sum_of_def Required_Sum_def Let_def)

text \<open>
  C9, amended.  The terminal step of \<^verbatim>\<open>ArrayBoardState::solve\<close>, which calls
  \<^verbatim>\<open>spiral_solution_is_correct\<close>, leaves the state as it was, so that repeating it gives the
  same result.  \<^verbatim>\<open>CheckHardcoded::is_solution\<close> divides by zero when
  \<^verbatim>\<open>n_attempts_log_period\<close> is 0.  Otherwise every call increments \<^verbatim>\<open>n_attempts\<close> (wrapping at
  \<open>2^64\<close>), prints the new count when it is a multiple of \<^verbatim>\<open>n_attempts_log_period\<close>, and then
  either ends the process, after printing \<^verbatim>\<open>stopping\<close>, when the new count equals
  \<^verbatim>\<open>n_attempts_bail\<close>, or returns the conjunction of the 15 raster line checks; it changes
  nothing else.  When two successive calls on the same board both return, they return
  the same boolean.
\<close>

theorem C9_validators_repeatable:
  "(n_cells_filled st = N_Hexes \<longrightarrow>
      solve rs st = Inr (st, if spiral_solution_is_correct (numbers st) then [numbers st] else [])) \<and>
   (n_attempts_log_period g = 0 \<longrightarrow> CheckHardcoded_is_solution b g = DivByZero) \<and>
   (n_attempts_log_period g \<noteq> 0 \<longrightarrow>
      (let n = size_inc (n_attempts g);
           printed = (if n mod n_attempts_log_period g = 0 then [Attempts n] else []) in
       (n = n_attempts_bail g \<longrightarrow>
          CheckHardcoded_is_solution b g =
            Exited (g\<lparr>n_attempts := n, cout := cout g @ printed @ [Stopping]\<rparr>)) \<and>
       (n \<noteq> n_attempts_bail g \<longrightarrow>
          CheckHardcoded_is_solution b g =
            Returned (list_all (sum_correct b) hex_lines)
              (g\<lparr>n_attempts := n, cout := cout g @ printed\<rparr>)))) \<and>
   (CheckHardcoded_is_solution b g = Returned r1 g1 \<longrightarrow>
      r1 = list_all (sum_correct b) hex_lines \<and>
      n_attempts g1 = size_inc (n_attempts g) \<and>
      n_attempts_log_period g1 = n_attempts_log_period g \<and>
      n_attempts_bail g1 = n_attempts_bail g \<and>
      (\<forall>r2 g2. CheckHardcoded_is_solution b g1 = Returned r2 g2 \<longrightarrow> r2 = r1))"
proof (intro conjI impI)
  assume "n_cells_filled st = N_Hexes"
  then have "plan_step (n_cells_filled st) = Terminal"
    by (simp add: plan_step_def N_Hexes_def)
  then show "solve rs st =
      Inr (st, if spiral_solution_is_correct (numbers st) then [numbers st] else [])"
    by (simp add: solve.simps[of rs st])
next
  assume "n_attempts_log_period g = 0"
  then show "CheckHardcoded_is_solution b g = DivByZero"
    by (simp add: CheckHardcoded_is_solution_def Let_def)
next
  assume "n_attempts_log_period g \<noteq> 0"
  then show "let n = size_inc (n_attempts g);
           printed = (if n mod n_attempts_log_period g = 0 then [Attempts n] else []) in
       (n = n_attempts_bail g \<longrightarrow>
          CheckHardcoded_is_solution b g =
            Exited (g\<lparr>n_attempts := n, cout := cout g @ printed @ [Stopping]\<rparr>)) \<and>
       (n \<noteq> n_attempts_bail g \<longrightarrow>
          CheckHardcoded_is_solution b g =
            Returned (list_all (sum_correct b) hex_lines)
              (g\<lparr>n_attempts := n, cout := cout g @ printed\<rparr>))"
    by (simp add: CheckHardcoded_is_solution_def Let_def)
next
  assume a: "CheckHardcoded_is_solution b g = Returned r1 g1"
  then show r1: "r1 = list_all (sum_correct b) hex_lines"
    by (auto simp: CheckHardcoded_is_solution_def Let_def split: if_splits)
  from a show "n_attempts g1 = size_inc (n_attempts g)"
    by (auto simp: CheckHardcoded_is_solution_def Let_def split: if_splits)
  from a show "n_attempts_log_period g1 = n_attempts_log_period g"
    by (auto simp: CheckHardcoded_is_solution_def Let_def split: if_splits)
  from a show "n_attempts_bail g1 = n_attempts_bail g"
    by (auto simp: CheckHardcoded_is_solution_def Let_def split: if_splits)
  show "\<forall>r2 g2. CheckHardcoded_is_solution b g1 = Returned r2 g2 \<longrightarrow> r2 = r1"
    unfolding r1
    by (auto simp: CheckHardcoded_is_solution_def Let_def split: if_splits)
qed

definition spiral_sample :: ArrayBoardState where
  "spiral_sample = \<lparr>numbers = sample_board, n_cells_filled = 19\<rparr>"

theorem C9_validators_repeatable_witness:
  "n_cells_filled spiral_sample = N_Hexes \<and>
   solve CreateNew spiral_sample = Inr (spiral_sample, []) \<and>
   n_attempts_log_period Globals_init \<noteq> 0 \<and>
   CheckHardcoded_is_solution sample_board Globals_init
     = Returned False (Globals_init\<lparr>n_attempts := 1\<rparr>) \<and>
   CheckHardcoded_is_solution sample_board (Globals_init\<lparr>n_attempts := 1\<rparr>)
     = Returned False (Globals_init\<lparr>n_attempts := 2\<rparr>) \<and>
   CheckHardcoded_is_solution sample_board (Globals_init\<lparr>n_attempts := 9999999\<rparr>)
     = Returned False (Globals_init\<lparr>n_attempts := 10000000, cout := [Attempts 10000000]\<rparr>) \<and>
   CheckHardcoded_is_solution sample_board (Globals_init\<lparr>n_attempts := 99999999\<rparr>)
     = Exited (Globals_init\<lparr>n_attempts := 100000000,
                 cout := [Attempts 100000000, Stopping]\<rparr>) \<and>
   CheckHardcoded_is_solution sample_board (Globals_init\<lparr>n_attempts_log_period := 0\<rparr>)
     = DivByZero"
proof -
  have f: "list_all (sum_correct sample_board) hex_lines = False"
    by (simp add: sample_board_def hex_lines_def sum_correct_def sum_of_def Required_Sum_def)
  have sf: "spiral_solution_is_correct (numbers spiral_sample) = False"
    by (simp add: spiral_sample_def sample_board_def spiral_solution_is_correct_def
        spiral_lines_def sum_correct_def sum_of_def Required_Sum_def)
  have n: "n_cells_filled spiral_sample = N_Hexes"
    by (simp add: spiral_sample_def N_Hexes_def)
  have p: "n_attempts_log_period Globals_init \<noteq> 0"
    by (simp add: Globals_init_def)
  note t = C9_validators_repeatable[where b = sample_board]
  from t[where st = spiral_sample and rs = CreateNew, THEN conjunct1, THEN mp, OF n]
  have c0: "solve CreateNew spiral_sample = Inr (spiral_sample, [])"
    by (simp only: sf if_False)
  have c1: "CheckHardcoded_is_solution sample_board Globals_init
     = Returned False (Globals_init\<lparr>n_attempts := 1\<rparr>)"
    using t[where g = Globals_init, THEN conjunct2, THEN conjunct2, THEN conjunct1]
    by (simp add: f Globals_init_def size_inc_def size_modulus_def Let_def)
  have c2: "CheckHardcoded_is_solution sample_board (Globals_init\<lparr>n_attempts := 1\<rparr>)
     = Returned False (Globals_init\<lparr>n_attempts := 2\<rparr>)"
    using t[where g = "Globals_init\<lparr>n_attempts := 1\<rparr>",
        THEN conjunct2, THEN conjunct2, THEN conjunct1]
    by (simp add: f Globals_init_def size_inc_def size_modulus_def Let_def)
  have c3: "CheckHardcoded_is_solution sample_board (Globals_init\<lparr>n_attempts := 9999999\<rparr>)
     = Returned False (Globals_init\<lparr>n_attempts := 10000000, cout := [Attempts 10000000]\<rparr>)"
    using t[where g = "Globals_init\<lparr>n_attempts := 9999999\<rparr>",
        THEN conjunct2, THEN conjunct2, THEN conjunct1]
    by (simp add: f Globals_init_def size_inc_def size_modulus_def Let_def)
  have c4: "CheckHardcoded_is_solution sample_board (Globals_init\<lparr>n_attempts := 99999999\<rparr>)
     = Exited (Globals_init\<lparr>n_attempts := 100000000,
                 cout := [Attempts 100000000, Stopping]\<rparr>)"
    using t[where g = "Globals_init\<lparr>n_attempts := 99999999\<rparr>",
        THEN conjunct2, THEN conjunct2, THEN conjunct1]
    by (simp add: f Globals_init_def size_inc_def size_modulus_def Let_def)
  have c5: "CheckHardcoded_is_solution sample_board (Globals_init\<lparr>n_attempts_log_period := 0\<rparr>)
     = DivByZero"
    using t[where g = "Globals_init\<lparr>n_attempts_log_period := 0\<rparr>",
        THEN conjunct2, THEN conjunct1]
    by simp
  show ?thesis by (intro conjI n c0 p c1 c2 c3 c4 c5)
qed

section \<open>The permutation invariant and the range of a deduced value\<close>

definition is_perm_1_19 :: "u8 list \<Rightarrow> bool" where
  "is_perm_1_19 xs = (mset xs = mset (map of_nat [1..<20]))"

lemma iota_19_set:
  "x \<in> set (map of_nat [1..<20] :: u8 list) \<Longrightarrow> 1 \<le> uint x \<and> uint x \<le> 19"
  by (auto simp: upt_rec)

lemma iota_19_distinct: "distinct (map of_nat [1..<20] :: u8 list)"
  by (simp add: upt_rec)

lemma perm_range: "is_perm_1_19 xs \<Longrightarrow> x \<in> set xs \<Longrightarrow> 1 \<le> uint x \<and> uint x \<le> 19"
  unfolding is_perm_1_19_def using iota_19_set mset_eq_setD by blast

lemma perm_distinct: "is_perm_1_19 xs \<Longrightarrow> distinct xs"
  unfolding is_perm_1_19_def using iota_19_distinct by (metis mset_eq_imp_distinct_iff)

lemma perm_length: "is_perm_1_19 xs \<Longrightarrow> length xs = N_Hexes"
  unfolding is_perm_1_19_def N_Hexes_def using mset_eq_length by fastforce

definition in_range :: "u8 \<Rightarrow> bool" where
  "in_range x = (1 \<le> uint x \<and> uint x \<le> 19)"

lemma sum_of_bounds:
  "\<forall>i \<in> set idxs. in_range (cells ! i) \<Longrightarrow>
   0 \<le> sum_of cells idxs \<and> sum_of cells idxs \<le> 19 * int (length idxs)"
  by (induction idxs) (auto simp: sum_of_def in_range_def)

lemma u8_sum4:
  fixes a b c d :: u8
  assumes "distinct [a, b, c, d]" "in_range a" "in_range b" "in_range c" "in_range d"
  shows "4 \<le> uint a + uint b + uint c + uint d \<and> uint a + uint b + uint c + uint d \<le> 70"
proof -
  from assms(1) have "uint a \<noteq> uint b" "uint a \<noteq> uint c" "uint a \<noteq> uint d"
    "uint b \<noteq> uint c" "uint b \<noteq> uint d" "uint c \<noteq> uint d"
    by (simp_all add: word_uint_eq_iff)
  with assms(2-) show ?thesis unfolding in_range_def by arith
qed

lemma deduce_sum_bounds:
  assumes "distinct cells" "\<forall>x \<in> set cells. in_range x"
    "plan_step k = Deduce idxs" "k \<le> length cells"
  shows "0 \<le> sum_of cells idxs \<and> sum_of cells idxs \<le> 70"
proof -
  have r: "in_range (cells ! i)" if "i < k" for i
    using that assms(2,4) by simp
  have d: "cells ! i \<noteq> cells ! j" if "i < k" "j < k" "i \<noteq> j" for i j
    using that assms(1,4) by (simp add: nth_eq_iff_index_eq)
  from plan_step_Deduce_idxs[OF assms(3)] r have ri: "\<forall>i \<in> set idxs. in_range (cells ! i)"
    by auto
  show ?thesis
  proof (cases "k = 18")
    case True
    with plan_step_Deduce_cases[OF assms(3)] have idxs: "idxs = [4, 10, 14, 17]" by simp
    have "distinct [cells ! 4, cells ! 10, cells ! 14, cells ! 17]"
      using d True by simp
    from u8_sum4[OF this] r True show ?thesis
      by (simp add: sum_of_def idxs)
  next
    case False
    with plan_step_Deduce_cases[OF assms(3)] have "length idxs \<le> 3" by auto
    with sum_of_bounds[OF ri] show ?thesis by simp
  qed
qed


lemma needed_range:
  fixes s :: int
  assumes "0 \<le> s" "s \<le> 70"
  shows "(38 - s \<notin> {1..19} \<longrightarrow> \<not> in_range (word_of_int (38 - s) :: u8)) \<and>
         (38 < s \<longrightarrow> 224 \<le> uint (word_of_int (38 - s) :: u8) \<and>
                     uint (word_of_int (38 - s) :: u8) \<le> 255)"
proof (cases "s \<le> 38")
  case True
  with assms have "(38 - s) mod 256 = 38 - s" by simp
  then have u: "uint (word_of_int (38 - s) :: u8) = 38 - s"
    unfolding uint_word_of_int by simp
  from True show ?thesis unfolding in_range_def u by simp
next
  case False
  have "(38 - s) mod 256 = (38 - s + 256) mod 256"
    by (rule mod_add_self2[symmetric])
  also from False assms have "\<dots> = 38 - s + 256" by simp
  finally have u: "uint (word_of_int (38 - s) :: u8) = 294 - s"
    unfolding uint_word_of_int by simp
  from False assms show ?thesis unfolding in_range_def u by simp
qed

lemma std_find_absent: "v \<notin> set xs \<Longrightarrow> std_find xs v = length xs"
  by (induction xs) auto

lemma std_find_present: "v \<in> set xs \<Longrightarrow> std_find xs v < length xs \<and> xs ! std_find xs v = v"
  by (induction xs) auto

lemma perm_in_range: "is_perm_1_19 xs \<Longrightarrow> \<forall>x \<in> set xs. in_range x"
  using perm_range by (auto simp: in_range_def)

lemma perm_wf: "is_perm_1_19 (numbers st) \<Longrightarrow> wf_state st"
  by (simp add: wf_state_def perm_length)


lemma uint_Required_Sum: "uint Required_Sum = 38"
  by (simp add: Required_Sum_def)

lemma array_needed_facts:
  assumes "is_perm_1_19 (numbers st)" "plan_step (n_cells_filled st) = Deduce idxs"
  defines "needed \<equiv> (word_of_int (uint Required_Sum - sum_of (numbers st) idxs) :: u8)"
  shows "find_needed_from_idxs st idxs = find_needed st needed"
    and "uint Required_Sum - sum_of (numbers st) idxs \<notin> {1..19} \<Longrightarrow> \<not> in_range needed"
    and "uint Required_Sum < sum_of (numbers st) idxs \<Longrightarrow>
           224 \<le> uint needed \<and> uint needed \<le> 255 \<and> \<not> in_range needed"
    and "\<not> in_range needed \<Longrightarrow> needed \<notin> set (drop (n_cells_filled st) (numbers st))"
proof -
  from plan_step_Deduce_idxs[OF assms(2)]
  have n: "n_cells_filled st < N_Hexes" and lt: "\<forall>i \<in> set idxs. i < N_Hexes" by auto
  from lt show "find_needed_from_idxs st idxs = find_needed st needed"
    by (simp add: find_needed_from_idxs_def needed_def)
  from n perm_length[OF assms(1)] have "n_cells_filled st \<le> length (numbers st)" by simp
  from deduce_sum_bounds[OF perm_distinct[OF assms(1)] perm_in_range[OF assms(1)] assms(2) this]
  have b: "0 \<le> sum_of (numbers st) idxs" "sum_of (numbers st) idxs \<le> 70" by auto
  note r = needed_range[OF b]
  from r show "uint Required_Sum - sum_of (numbers st) idxs \<notin> {1..19} \<Longrightarrow> \<not> in_range needed"
    by (simp add: needed_def uint_Required_Sum)
  from r show "uint Required_Sum < sum_of (numbers st) idxs \<Longrightarrow>
           224 \<le> uint needed \<and> uint needed \<le> 255 \<and> \<not> in_range needed"
    by (simp add: needed_def uint_Required_Sum in_range_def)
  show "\<not> in_range needed \<Longrightarrow> needed \<notin> set (drop (n_cells_filled st) (numbers st))"
    using perm_in_range[OF assms(1)] by (meson in_set_dropD)
qed

lemma array_prune:
  assumes "wf_state st" "plan_step (n_cells_filled st) = Deduce idxs"
    "find_needed_from_idxs st idxs = Inr N_Hexes"
  shows "solve rs st = Inr (st, [])"
  using assms by (simp add: solve.simps[of rs st] deduce_from_idx_none)

lemma vector_needed_facts:
  assumes "is_perm_1_19 (board bs @ available bs)" "plan_step (length (board bs)) = Deduce idxs"
  defines "needed \<equiv> (word_of_int (uint Required_Sum - sum_of (board bs) idxs) :: u8)"
  shows "uint Required_Sum - sum_of (board bs) idxs \<notin> {1..19} \<Longrightarrow> \<not> in_range needed"
    and "uint Required_Sum < sum_of (board bs) idxs \<Longrightarrow>
           224 \<le> uint needed \<and> uint needed \<le> 255 \<and> \<not> in_range needed"
    and "\<not> in_range needed \<Longrightarrow> needed \<notin> set (available bs)"
proof -
  from perm_distinct[OF assms(1)] have d: "distinct (board bs)" by simp
  from perm_in_range[OF assms(1)] have r: "\<forall>x \<in> set (board bs). in_range x"
    and ra: "\<forall>x \<in> set (available bs). in_range x" by auto
  from deduce_sum_bounds[OF d r assms(2)]
  have b: "0 \<le> sum_of (board bs) idxs" "sum_of (board bs) idxs \<le> 70" by auto
  note nr = needed_range[OF b]
  from nr show "uint Required_Sum - sum_of (board bs) idxs \<notin> {1..19} \<Longrightarrow> \<not> in_range needed"
    by (simp add: needed_def uint_Required_Sum)
  from nr show "uint Required_Sum < sum_of (board bs) idxs \<Longrightarrow>
           224 \<le> uint needed \<and> uint needed \<le> 255 \<and> \<not> in_range needed"
    by (simp add: needed_def uint_Required_Sum in_range_def)
  from ra show "\<not> in_range needed \<Longrightarrow> needed \<notin> set (available bs)" by blast
qed

lemma vector_prune:
  assumes "plan_step (length (board bs)) = Deduce idxs"
    "(word_of_int (uint Required_Sum - sum_of (board bs) idxs) :: u8) \<notin> set (available bs)"
  shows "deduce_board idxs bs g = ([], Returned () g)"
    and "solve_deduce_last_cell_of_line bs g = ([], Returned () g)"
proof -
  from std_find_absent[OF assms(2)]
  show d: "deduce_board idxs bs g = ([], Returned () g)"
    by (simp add: deduce_board.simps[of idxs bs g] Let_def)
  with assms(1) show "solve_deduce_last_cell_of_line bs g = ([], Returned () g)"
    by (simp add: solve_deduce_last_cell_of_line.simps[of bs g])
qed

text \<open>
  C5.  At a deduce step of a state that holds a permutation of 1..19, in the array
  engine (either strategy) and in the vector engine: the value searched for is
  \<^verbatim>\<open>needed = 38 - (sum of the step's cells)\<close> converted to \<^verbatim>\<open>uint8_t\<close>, and it is searched in
  the pool only; when the pool does not hold it, the call returns at once, with no
  sink call and the state as it was; when the integer \<^verbatim>\<open>38 - sum\<close> is outside 1..19 the
  pool does not hold \<^verbatim>\<open>needed\<close>; and when the sum exceeds 38, \<^verbatim>\<open>needed\<close> is in 224..255.
\<close>

theorem C5_deduce_prunes:
  "(is_perm_1_19 (numbers st) \<and> plan_step (n_cells_filled st) = Deduce idxs \<longrightarrow>
     (let needed = (word_of_int (uint Required_Sum - sum_of (numbers st) idxs) :: u8);
          pool = drop (n_cells_filled st) (numbers st) in
      find_needed_from_idxs st idxs = find_needed st needed \<and>
      (needed \<in> set pool \<longrightarrow>
         (\<exists>k. find_needed st needed = Inr k \<and> n_cells_filled st \<le> k \<and> k < N_Hexes \<and>
              numbers st ! k = needed)) \<and>
      (needed \<notin> set pool \<longrightarrow>
         find_needed st needed = Inr N_Hexes \<and> solve rs st = Inr (st, [])) \<and>
      (uint Required_Sum - sum_of (numbers st) idxs \<notin> {1..19} \<longrightarrow> needed \<notin> set pool) \<and>
      (uint Required_Sum < sum_of (numbers st) idxs \<longrightarrow>
         224 \<le> uint needed \<and> uint needed \<le> 255 \<and> needed \<notin> set pool))) \<and>
   (is_perm_1_19 (board bs @ available bs) \<and> plan_step (length (board bs)) = Deduce idxs' \<longrightarrow>
     (let needed = (word_of_int (uint Required_Sum - sum_of (board bs) idxs') :: u8) in
      (needed \<notin> set (available bs) \<longrightarrow>
         deduce_board idxs' bs g = ([], Returned () g) \<and>
         solve_deduce_last_cell_of_line bs g = ([], Returned () g)) \<and>
      (uint Required_Sum - sum_of (board bs) idxs' \<notin> {1..19} \<longrightarrow> needed \<notin> set (available bs)) \<and>
      (uint Required_Sum < sum_of (board bs) idxs' \<longrightarrow>
         224 \<le> uint needed \<and> uint needed \<le> 255 \<and> needed \<notin> set (available bs))))"
proof (intro conjI impI)
  assume a: "is_perm_1_19 (numbers st) \<and> plan_step (n_cells_filled st) = Deduce idxs"
  then have p: "is_perm_1_19 (numbers st)" and s: "plan_step (n_cells_filled st) = Deduce idxs"
    by simp_all
  note wf = perm_wf[OF p]
  from plan_step_Deduce_idxs[OF s] have n: "n_cells_filled st \<le> N_Hexes" by simp
  note f = array_needed_facts[OF p s]
  let ?needed = "word_of_int (uint Required_Sum - sum_of (numbers st) idxs) :: u8"
  let ?pool = "drop (n_cells_filled st) (numbers st)"
  have absent: "find_needed st ?needed = Inr N_Hexes \<and> solve rs st = Inr (st, [])"
    if "?needed \<notin> set ?pool"
  proof -
    from find_needed_absent[OF wf n that] have "find_needed st ?needed = Inr N_Hexes" .
    moreover from this f(1) have "find_needed_from_idxs st idxs = Inr N_Hexes" by simp
    from array_prune[OF wf s this] have "solve rs st = Inr (st, [])" .
    ultimately show ?thesis by simp
  qed
  show "let needed = ?needed; pool = ?pool in
      find_needed_from_idxs st idxs = find_needed st needed \<and>
      (needed \<in> set pool \<longrightarrow>
         (\<exists>k. find_needed st needed = Inr k \<and> n_cells_filled st \<le> k \<and> k < N_Hexes \<and>
              numbers st ! k = needed)) \<and>
      (needed \<notin> set pool \<longrightarrow>
         find_needed st needed = Inr N_Hexes \<and> solve rs st = Inr (st, [])) \<and>
      (uint Required_Sum - sum_of (numbers st) idxs \<notin> {1..19} \<longrightarrow> needed \<notin> set pool) \<and>
      (uint Required_Sum < sum_of (numbers st) idxs \<longrightarrow>
         224 \<le> uint needed \<and> uint needed \<le> 255 \<and> needed \<notin> set pool)"
    unfolding Let_def
    using f(1) find_needed_found[OF wf n, of ?needed] absent f(2) f(3) f(4) by blast
next
  assume a: "is_perm_1_19 (board bs @ available bs) \<and>
    plan_step (length (board bs)) = Deduce idxs'"
  then have p: "is_perm_1_19 (board bs @ available bs)"
    and s: "plan_step (length (board bs)) = Deduce idxs'" by simp_all
  note f = vector_needed_facts[OF p s]
  note v = vector_prune[OF s, of g]
  show "let needed = (word_of_int (uint Required_Sum - sum_of (board bs) idxs') :: u8) in
      (needed \<notin> set (available bs) \<longrightarrow>
         deduce_board idxs' bs g = ([], Returned () g) \<and>
         solve_deduce_last_cell_of_line bs g = ([], Returned () g)) \<and>
      (uint Required_Sum - sum_of (board bs) idxs' \<notin> {1..19} \<longrightarrow> needed \<notin> set (available bs)) \<and>
      (uint Required_Sum < sum_of (board bs) idxs' \<longrightarrow>
         224 \<le> uint needed \<and> uint needed \<le> 255 \<and> needed \<notin> set (available bs))"
    unfolding Let_def using f v by blast
qed

definition wrap_state :: ArrayBoardState where
  "wrap_state =
    \<lparr>numbers = [1, 2, 3, 17, 5, 6, 7, 8, 9, 10, 11, 19, 18, 4, 12, 13, 14, 15, 16],
     n_cells_filled = 13\<rparr>"

definition wrap_board :: BoardState where
  "wrap_board =
    \<lparr>board = [1, 2, 3, 17, 5, 6, 7, 8, 9, 10, 11, 19, 18],
     available = [4, 12, 13, 14, 15, 16]\<rparr>"

theorem C5_deduce_prunes_witness:
  "is_perm_1_19 (numbers wrap_state) \<and>
   plan_step (n_cells_filled wrap_state) = Deduce [3, 11, 12] \<and>
   sum_of (numbers wrap_state) [3, 11, 12] = 54 \<and>
   (word_of_int (uint Required_Sum - sum_of (numbers wrap_state) [3, 11, 12]) :: u8) = 240 \<and>
   find_needed wrap_state 240 = Inr N_Hexes \<and>
   solve CreateNew wrap_state = Inr (wrap_state, []) \<and>
   is_perm_1_19 (board wrap_board @ available wrap_board) \<and>
   plan_step (length (board wrap_board)) = Deduce [3, 11, 12] \<and>
   solve_deduce_last_cell_of_line wrap_board Globals_init = ([], Returned () Globals_init)"
proof -
  have p: "is_perm_1_19 (numbers wrap_state)"
    by (simp add: is_perm_1_19_def wrap_state_def upt_rec)
  have s: "plan_step (n_cells_filled wrap_state) = Deduce [3, 11, 12]"
    by (simp add: plan_step_def wrap_state_def)
  have sm: "sum_of (numbers wrap_state) [3, 11, 12] = 54"
    by (simp add: sum_of_def wrap_state_def)
  have nd: "(word_of_int (uint Required_Sum - sum_of (numbers wrap_state) [3, 11, 12]) :: u8) = 240"
    by (simp add: sm Required_Sum_def)
  have gt: "uint Required_Sum < sum_of (numbers wrap_state) [3, 11, 12]"
    by (simp add: sm Required_Sum_def)
  have p': "is_perm_1_19 (board wrap_board @ available wrap_board)"
    by (simp add: is_perm_1_19_def wrap_board_def upt_rec)
  have s': "plan_step (length (board wrap_board)) = Deduce [3, 11, 12]"
    by (simp add: plan_step_def wrap_board_def)
  have gt': "uint Required_Sum < sum_of (board wrap_board) [3, 11, 12]"
    by (simp add: sum_of_def wrap_board_def Required_Sum_def)
  note t = C5_deduce_prunes[of wrap_state "[3, 11, 12]" CreateNew wrap_board "[3, 11, 12]"
      Globals_init, unfolded Let_def]
  from t p s gt have
    "find_needed wrap_state (word_of_int (uint Required_Sum
        - sum_of (numbers wrap_state) [3, 11, 12])) = Inr N_Hexes \<and>
     solve CreateNew wrap_state = Inr (wrap_state, [])"
    by blast
  then have a: "find_needed wrap_state 240 = Inr N_Hexes"
    "solve CreateNew wrap_state = Inr (wrap_state, [])"
    unfolding nd by simp_all
  from t p' s' gt' have
    b: "solve_deduce_last_cell_of_line wrap_board Globals_init = ([], Returned () Globals_init)"
    by blast
  from p s sm nd a p' s' b show ?thesis by blast
qed

section \<open>The values on the board and in the pool\<close>

lemma mset_move_to_board:
  assumes "i < length (available st)"
  shows "mset (board (move_to_board i st) @ available (move_to_board i st))
         = mset (board st @ available st)"
proof -
  from id_take_nth_drop[OF assms]
  have "mset (available st) =
      mset (take i (available st) @ available st ! i # drop (Suc i) (available st))"
    by simp
  then show ?thesis by (simp add: move_to_board_def)
qed

lemma solve_test_as_lines_filled_unfold:
  "solve_test_as_lines_filled fo st =
    (if incorrect_already fo st then []
     else if available st = [] then [board st]
     else concat (map (\<lambda>idx. solve_test_as_lines_filled fo (move_to_board idx st))
                    [0..<length (available st)]))"
  by (simp add: solve_test_as_lines_filled.simps[of fo st] move_to_board_def Let_def)

lemma solve_test_as_lines_filled_mset:
  "b \<in> set (solve_test_as_lines_filled fo st) \<Longrightarrow> mset b = mset (board st @ available st)"
proof (induction "length (available st)" arbitrary: st rule: less_induct)
  case less
  show ?case
  proof (cases "incorrect_already fo st \<or> available st = []")
    case True
    with less(2) show ?thesis
      by (auto simp: solve_test_as_lines_filled_unfold[of fo st] split: if_splits)
  next
    case False
    with less(2) obtain idx where idx: "idx < length (available st)"
      and b: "b \<in> set (solve_test_as_lines_filled fo (move_to_board idx st))"
      by (auto simp: solve_test_as_lines_filled_unfold[of fo st])
    from idx have "length (available (move_to_board idx st)) < length (available st)"
      by (simp add: move_to_board_def)
    from less(1)[OF this b] mset_move_to_board[OF idx] show ?thesis by simp
  qed
qed

definition full_size :: "BoardState \<Rightarrow> bool" where
  "full_size st = (length (board st) + length (available st) = N_Hexes)"

lemma full_size_move_to_board:
  "i < length (available st) \<Longrightarrow> full_size st \<Longrightarrow> full_size (move_to_board i st)"
  by (auto simp: full_size_def move_to_board_def)

lemma vec_outputs_mset:
  "full_size st \<and> b \<in> set (fst (solve_deduce_last_cell_of_line st g))
     \<longrightarrow> mset b = mset (board st @ available st)"
  "full_size st \<and> b \<in> set (fst (choose_board st g))
     \<longrightarrow> mset b = mset (board st @ available st)"
  "full_size st \<and> b \<in> set (fst (choose_board_loop i st g))
     \<longrightarrow> mset b = mset (board st @ available st)"
  "full_size st \<and> b \<in> set (fst (deduce_board idxs st g))
     \<longrightarrow> mset b = mset (board st @ available st)"
proof (induction st g and st g and i st g and idxs st g
       rule: solve_deduce_last_cell_of_line_choose_board_choose_board_loop_deduce_board.induct)
  case (1 st g)
  show ?case
  proof (cases "plan_step (length (board st))")
    case Choose
    with 1(1) show ?thesis by (simp add: solve_deduce_last_cell_of_line.simps[of st g])
  next
    case (Deduce idxs)
    with 1(2) show ?thesis by (simp add: solve_deduce_last_cell_of_line.simps[of st g])
  next
    case Terminal
    then have n: "length (board st) = N_Hexes"
      by (auto simp: plan_step_def N_Hexes_def split: if_splits)
    have "fst (solve_deduce_last_cell_of_line st g) = [] \<or>
        fst (solve_deduce_last_cell_of_line st g) = [board st]"
      using Terminal
      by (auto simp: solve_deduce_last_cell_of_line.simps[of st g] split: outcome.splits)
    with n show ?thesis by (auto simp: full_size_def)
  next
    case NoCase
    then show ?thesis by (simp add: solve_deduce_last_cell_of_line.simps[of st g])
  qed
next
  case (2 st g)
  then show ?case by (simp add: choose_board.simps[of st g])
next
  case (3 i st g)
  show ?case
  proof (cases "i < length (available st)")
    case True
    show ?thesis
    proof
      assume a: "full_size st \<and> b \<in> set (fst (choose_board_loop i st g))"
      then have fs: "full_size st" and b: "b \<in> set (fst (choose_board_loop i st g))"
        by simp_all
      obtain out1 r1 where s: "solve_deduce_last_cell_of_line (move_to_board i st) g = (out1, r1)"
        by (cases "solve_deduce_last_cell_of_line (move_to_board i st) g")
      from 3(1)[OF True] s mset_move_to_board[OF True] full_size_move_to_board[OF True fs]
      have o1: "b \<in> set out1 \<longrightarrow> mset b = mset (board st @ available st)" by simp
      show "mset b = mset (board st @ available st)"
      proof (cases r1)
        case (Returned u g')
        obtain out2 r2 where l: "choose_board_loop (i + 1) st g' = (out2, r2)"
          by (cases "choose_board_loop (i + 1) st g'")
        from 3(2)[OF True s[symmetric] Returned] l fs
        have o2: "b \<in> set out2 \<longrightarrow> mset b = mset (board st @ available st)" by simp
        from b True s Returned l have "b \<in> set out1 \<or> b \<in> set out2"
          by (simp add: choose_board_loop.simps[of i st g])
        with o1 o2 show ?thesis by blast
      next
        case (Exited g')
        with b True s have "b \<in> set out1"
          by (simp add: choose_board_loop.simps[of i st g])
        with o1 show ?thesis by blast
      next
        case DivByZero
        with b True s have "b \<in> set out1"
          by (simp add: choose_board_loop.simps[of i st g])
        with o1 show ?thesis by blast
      qed
    qed
  next
    case False
    then show ?thesis by (simp add: choose_board_loop.simps[of i st g])
  qed
next
  case (4 idxs st g)
  let ?needed = "word_of_int (uint Required_Sum - sum_of (board st) idxs) :: u8"
  let ?k = "std_find (available st) ?needed"
  show ?case
  proof (cases "?k = length (available st)")
    case True
    then show ?thesis by (simp add: deduce_board.simps[of idxs st g] Let_def)
  next
    case False
    with std_find_le[of "available st" ?needed] have lt: "?k < length (available st)" by simp
    from 4[OF refl refl False] mset_move_to_board[OF lt] full_size_move_to_board[OF lt] False
    show ?thesis
      by (auto simp: deduce_board.simps[of idxs st g] Let_def)
  qed
qed


lemma swap_numbers_mset:
  assumes "wf_state st" "swap_numbers i j st = Inr st'"
  shows "mset (numbers st') = mset (numbers st)"
proof -
  from swap_numbers_bounds[OF assms(2)] assms(1)
  have "i < length (numbers st)" "j < length (numbers st)" by (simp_all add: wf_state_def)
  from mset_swap[OF this(2) this(1)] assms(2) show ?thesis
    by (auto simp: swap_numbers_def split: if_splits)
qed

lemma mset_place:
  assumes "wf_state st" "n_cells_filled st < N_Hexes" "j < N_Hexes"
  shows "mset (numbers (place j st)) = mset (numbers st)"
proof -
  from assms have "n_cells_filled st < length (numbers st)" "j < length (numbers st)"
    by (simp_all add: wf_state_def)
  from mset_swap[OF this(2) this(1)] show ?thesis by (simp add: place_def)
qed

lemma solve_out_valid:
  "wf_state st \<Longrightarrow> b \<in> set (solve_out rs st) \<Longrightarrow>
   mset b = mset (numbers st) \<and> spiral_solution_is_correct b"
proof (induction "N_Hexes - n_cells_filled st" arbitrary: st rule: less_induct)
  case less
  show ?case
  proof (cases "plan_step (n_cells_filled st)")
    case Choose
    from plan_step_Choose[OF Choose] have n: "n_cells_filled st < N_Hexes"
      by (simp add: N_Hexes_def)
    from less(3) obtain j where j: "n_cells_filled st \<le> j" "j < N_Hexes"
      and b: "b \<in> set (solve_out rs (place j st))"
      by (auto simp: solve_out_Choose[OF less(2) Choose])
    from less(1)[OF _ wf_place[OF less(2)] b] n mset_place[OF less(2) n j(2)]
    show ?thesis by (simp add: n_place)
  next
    case (Deduce idxs)
    from plan_step_Deduce_idxs[OF Deduce] have n: "n_cells_filled st < N_Hexes" by simp
    from find_needed_from_idxs_total[OF Deduce] obtain k where
      k: "find_needed_from_idxs st idxs = Inr k" "k \<le> N_Hexes" by blast
    from less(3) have ne: "k \<noteq> N_Hexes" and b: "b \<in> set (solve_out rs (place k st))"
      by (auto simp: solve_out_Deduce[OF less(2) Deduce k(1)] split: if_splits)
    from ne k(2) have lt: "k < N_Hexes" by simp
    from less(1)[OF _ wf_place[OF less(2)] b] n mset_place[OF less(2) n lt]
    show ?thesis by (simp add: n_place)
  next
    case Terminal
    with less(3) show ?thesis
      by (auto simp: solve_out_Terminal split: if_splits)
  next
    case NoCase
    with less(3) show ?thesis by (simp add: solve_out_NoCase)
  qed
qed


lemma is_perm_init_array: "is_perm_1_19 (numbers ArrayBoardState_init)"
  by (simp add: is_perm_1_19_def ArrayBoardState_init_def)

lemma is_perm_init_board: "is_perm_1_19 (board BoardState_init @ available BoardState_init)"
  by (simp add: is_perm_1_19_def BoardState_init_def)

text \<open>
  The states an engine can be called on.  Every recursive call of the three engines on
  \<^verbatim>\<open>BoardState\<close> is made on \<^verbatim>\<open>move_to_board(i)\<close> of the current state, with \<open>i\<close> below
  \<^verbatim>\<open>available.size()\<close>: the loop of \<^verbatim>\<open>choose\<close> and of \<^verbatim>\<open>solve_test_as_lines_filled\<close>, and the
  position found by \<^verbatim>\<open>deduce\<close>.  Every recursive call of \<^verbatim>\<open>ArrayBoardState::solve\<close> is made
  after \<^verbatim>\<open>numbers[n_cells_filled]\<close> was swapped with \<^verbatim>\<open>numbers[k]\<close> for a pool position \<open>k\<close>
  and \<^verbatim>\<open>n_cells_filled\<close> was incremented: \<open>k\<close> runs over the pool in \<^verbatim>\<open>choose\<close> and is the
  position returned by \<^verbatim>\<open>find_needed\<close> in \<^verbatim>\<open>deduce_from_idx\<close>.
\<close>

inductive reach_board :: "BoardState \<Rightarrow> bool" where
  reach_board_init: "reach_board BoardState_init"
| reach_board_step:
    "reach_board bs \<Longrightarrow> i < length (available bs) \<Longrightarrow> reach_board (move_to_board i bs)"

inductive reach_array :: "ArrayBoardState \<Rightarrow> bool" where
  reach_array_init: "reach_array ArrayBoardState_init"
| reach_array_step:
    "reach_array st \<Longrightarrow> n_cells_filled st \<le> k \<Longrightarrow> k < N_Hexes \<Longrightarrow> reach_array (place k st)"

lemma reach_board_perm: "reach_board bs \<Longrightarrow> is_perm_1_19 (board bs @ available bs)"
proof (induction rule: reach_board.induct)
  case reach_board_init
  show ?case by (rule is_perm_init_board)
next
  case (reach_board_step bs i)
  with mset_move_to_board[OF reach_board_step(2)] show ?case
    by (simp add: is_perm_1_19_def)
qed

lemma reach_array_perm:
  "reach_array st \<Longrightarrow> is_perm_1_19 (numbers st) \<and> n_cells_filled st \<le> N_Hexes"
proof (induction rule: reach_array.induct)
  case reach_array_init
  show ?case using is_perm_init_array by (simp add: ArrayBoardState_init_def)
next
  case (reach_array_step st k)
  then have p: "is_perm_1_19 (numbers st)" and n: "n_cells_filled st < N_Hexes" by simp_all
  from mset_place[OF perm_wf[OF p] n reach_array_step(3)] p n show ?case
    by (simp add: is_perm_1_19_def n_place)
qed

text \<open>
  C8.  Both initial states hold the values 1..19 once each, and every operation keeps
  the multiset of values: \<^verbatim>\<open>std::swap\<close> on the array, the calls \<^verbatim>\<open>solve\<close>, \<^verbatim>\<open>choose\<close> and
  \<^verbatim>\<open>deduce_from_idx\<close> (the state they return has the array they were given, and every
  board they pass to the sink has the same values), \<^verbatim>\<open>move_to_board\<close> on a
  \<^verbatim>\<open>BoardState\<close>, and both vector engines (every board passed to the sink has the values
  of \<^verbatim>\<open>board\<close> and \<^verbatim>\<open>available\<close> together).  Hence every state an engine is called on
  during a search from its initial state holds the values 1..19 once each.
\<close>

theorem C8_values_are_a_permutation:
  "is_perm_1_19 (numbers ArrayBoardState_init) \<and>
   is_perm_1_19 (board BoardState_init @ available BoardState_init) \<and>
   (wf_state st \<and> swap_numbers i j st = Inr st' \<longrightarrow> mset (numbers st') = mset (numbers st)) \<and>
   (wf_state st \<longrightarrow>
      (\<exists>out. solve rs st = Inr (st, out) \<and> (\<forall>b \<in> set out. mset b = mset (numbers st)))) \<and>
   (wf_state st \<and> n_cells_filled st < N_Hexes \<longrightarrow>
      (\<exists>out. choose_array rs st = Inr (st, out) \<and> (\<forall>b \<in> set out. mset b = mset (numbers st)))) \<and>
   (wf_state st \<and> n_cells_filled st < N_Hexes \<and> k < N_Hexes \<longrightarrow>
      (\<exists>out. deduce_from_idx rs k st = Inr (st, out) \<and>
             (\<forall>b \<in> set out. mset b = mset (numbers st)))) \<and>
   (m < length (available bs) \<longrightarrow>
      mset (board (move_to_board m bs) @ available (move_to_board m bs))
        = mset (board bs @ available bs)) \<and>
   (\<forall>b \<in> set (solve_test_as_lines_filled fo bs). mset b = mset (board bs @ available bs)) \<and>
   (length (board bs) + length (available bs) = N_Hexes \<longrightarrow>
      (\<forall>b \<in> set (fst (solve_deduce_last_cell_of_line bs g)).
          mset b = mset (board bs @ available bs))) \<and>
   (reach_board bs' \<longrightarrow> is_perm_1_19 (board bs' @ available bs')) \<and>
   (reach_array st'' \<longrightarrow> is_perm_1_19 (numbers st'') \<and> n_cells_filled st'' \<le> N_Hexes)"
proof (intro conjI impI ballI)
  show "is_perm_1_19 (numbers ArrayBoardState_init)" by (rule is_perm_init_array)
  show "is_perm_1_19 (board BoardState_init @ available BoardState_init)"
    by (rule is_perm_init_board)
next
  assume "wf_state st \<and> swap_numbers i j st = Inr st'"
  then show "mset (numbers st') = mset (numbers st)"
    using swap_numbers_mset by blast
next
  assume wf: "wf_state st"
  from solve_returns[OF wf, of rs] solve_out_valid[OF wf, of _ rs]
  show "\<exists>out. solve rs st = Inr (st, out) \<and> (\<forall>b \<in> set out. mset b = mset (numbers st))"
    by blast
next
  assume a: "wf_state st \<and> n_cells_filled st < N_Hexes"
  then have wf: "wf_state st" and n: "n_cells_filled st < N_Hexes" by simp_all
  have "mset b = mset (numbers st)"
    if "b \<in> set (concat (map (\<lambda>j. solve_out rs (place j st)) [n_cells_filled st..<N_Hexes]))"
    for b
  proof -
    from that obtain j where j: "j < N_Hexes" and b: "b \<in> set (solve_out rs (place j st))"
      by auto
    from solve_out_valid[OF wf_place[OF wf] b] mset_place[OF wf n j] show ?thesis by simp
  qed
  with choose_char[OF wf n, of rs]
  show "\<exists>out. choose_array rs st = Inr (st, out) \<and> (\<forall>b \<in> set out. mset b = mset (numbers st))"
    by blast
next
  assume a: "wf_state st \<and> n_cells_filled st < N_Hexes \<and> k < N_Hexes"
  then have wf: "wf_state st" and n: "n_cells_filled st < N_Hexes" and k: "k < N_Hexes"
    by simp_all
  have "mset b = mset (numbers st)" if "b \<in> set (solve_out rs (place k st))" for b
    using solve_out_valid[OF wf_place[OF wf] that] mset_place[OF wf n k] by simp
  with deduce_from_idx_char[OF wf n k, of rs]
  show "\<exists>out. deduce_from_idx rs k st = Inr (st, out) \<and>
             (\<forall>b \<in> set out. mset b = mset (numbers st))"
    by blast
next
  assume "m < length (available bs)"
  then show "mset (board (move_to_board m bs) @ available (move_to_board m bs))
        = mset (board bs @ available bs)"
    by (rule mset_move_to_board)
next
  fix b assume "b \<in> set (solve_test_as_lines_filled fo bs)"
  then show "mset b = mset (board bs @ available bs)"
    by (rule solve_test_as_lines_filled_mset)
next
  fix b
  assume "length (board bs) + length (available bs) = N_Hexes"
    and "b \<in> set (fst (solve_deduce_last_cell_of_line bs g))"
  then show "mset b = mset (board bs @ available bs)"
    using vec_outputs_mset(1)[of bs b g] by (simp add: full_size_def)
next
  assume "reach_board bs'"
  then show "is_perm_1_19 (board bs' @ available bs')" by (rule reach_board_perm)
next
  assume r: "reach_array st''"
  from reach_array_perm[OF r] show "is_perm_1_19 (numbers st'')"
    and "n_cells_filled st'' \<le> N_Hexes" by simp_all
qed

theorem C8_values_are_a_permutation_witness:
  "wf_state ArrayBoardState_init \<and>
   swap_numbers 0 5 ArrayBoardState_init
     = Inr (ArrayBoardState_init\<lparr>numbers :=
         [6, 2, 3, 4, 5, 1, 7, 8, 9, 10, 11, 12, 13, 14, 15, 16, 17, 18, 19]\<rparr>) \<and>
   mset [6, 2, 3, 4, 5, 1, 7, 8, 9, 10, 11, 12, 13, 14, 15, 16, 17, 18, 19 :: u8]
     = mset (numbers ArrayBoardState_init) \<and>
   (\<exists>out. solve SwapAndSwapBack ArrayBoardState_init = Inr (ArrayBoardState_init, out) \<and>
      (\<forall>b \<in> set out. mset b = mset (numbers ArrayBoardState_init))) \<and>
   (\<exists>out. choose_array SwapAndSwapBack ArrayBoardState_init = Inr (ArrayBoardState_init, out) \<and>
      (\<forall>b \<in> set out. mset b = mset (numbers ArrayBoardState_init))) \<and>
   0 < length (available BoardState_init) \<and>
   mset (board (move_to_board 0 BoardState_init) @ available (move_to_board 0 BoardState_init))
     = mset (board BoardState_init @ available BoardState_init) \<and>
   length (board BoardState_init) + length (available BoardState_init) = N_Hexes \<and>
   reach_board (move_to_board 0 BoardState_init) \<and>
   is_perm_1_19 (board (move_to_board 0 BoardState_init)
                 @ available (move_to_board 0 BoardState_init)) \<and>
   reach_array (place 5 ArrayBoardState_init) \<and>
   is_perm_1_19 (numbers (place 5 ArrayBoardState_init))"
proof -
  have wf: "wf_state ArrayBoardState_init"
    by (simp add: wf_state_def ArrayBoardState_init_def N_Hexes_def)
  have sw: "swap_numbers 0 5 ArrayBoardState_init
     = Inr (ArrayBoardState_init\<lparr>numbers :=
         [6, 2, 3, 4, 5, 1, 7, 8, 9, 10, 11, 12, 13, 14, 15, 16, 17, 18, 19]\<rparr>)"
    by (simp add: swap_numbers_def ArrayBoardState_init_def N_Hexes_def upt_rec)
  have n: "n_cells_filled ArrayBoardState_init < N_Hexes"
    by (simp add: ArrayBoardState_init_def N_Hexes_def)
  have a: "0 < length (available BoardState_init)"
    by (simp add: BoardState_init_def)
  have fs: "length (board BoardState_init) + length (available BoardState_init) = N_Hexes"
    by (simp add: BoardState_init_def N_Hexes_def)
  note t = C8_values_are_a_permutation[where st = ArrayBoardState_init and i = 0 and j = 5
      and st' = "ArrayBoardState_init\<lparr>numbers :=
         [6, 2, 3, 4, 5, 1, 7, 8, 9, 10, 11, 12, 13, 14, 15, 16, 17, 18, 19]\<rparr>"
      and rs = SwapAndSwapBack and m = 0 and bs = BoardState_init
      and bs' = "move_to_board 0 BoardState_init" and st'' = "place 5 ArrayBoardState_init"]
  have rb: "reach_board (move_to_board 0 BoardState_init)"
    by (rule reach_board_step[OF reach_board_init a])
  have ra: "reach_array (place 5 ArrayBoardState_init)"
    by (rule reach_array_step[OF reach_array_init])
       (simp_all add: ArrayBoardState_init_def N_Hexes_def)
  from t rb have pb: "is_perm_1_19 (board (move_to_board 0 BoardState_init)
                 @ available (move_to_board 0 BoardState_init))"
    by blast
  from t ra have pa: "is_perm_1_19 (numbers (place 5 ArrayBoardState_init))"
    by blast
  from t wf sw have
    "mset [6, 2, 3, 4, 5, 1, 7, 8, 9, 10, 11, 12, 13, 14, 15, 16, 17, 18, 19 :: u8]
       = mset (numbers ArrayBoardState_init)"
    by simp
  moreover from t wf have
    "\<exists>out. solve SwapAndSwapBack ArrayBoardState_init = Inr (ArrayBoardState_init, out) \<and>
      (\<forall>b \<in> set out. mset b = mset (numbers ArrayBoardState_init))"
    by blast
  moreover from t wf n have
    "\<exists>out. choose_array SwapAndSwapBack ArrayBoardState_init = Inr (ArrayBoardState_init, out) \<and>
      (\<forall>b \<in> set out. mset b = mset (numbers ArrayBoardState_init))"
    by blast
  moreover from t a have
    "mset (board (move_to_board 0 BoardState_init) @ available (move_to_board 0 BoardState_init))
     = mset (board BoardState_init @ available BoardState_init)"
    by blast
  ultimately show ?thesis using wf sw a fs rb pb ra pa by blast
qed

section \<open>The order in which a branch step tries the pool\<close>

text \<open>
  \<^verbatim>\<open>BoardState::choose\<close> calls \<^verbatim>\<open>solve_deduce_last_cell_of_line\<close> on one new state after the
  other; \<^term>\<open>run_all\<close> is that sequence of calls, which stops when a call ends the process.
\<close>

fun run_all :: "BoardState list \<Rightarrow> Globals \<Rightarrow> vec_run" where
  "run_all [] g = ([], Returned () g)"
| "run_all (c # cs) g =
    (case solve_deduce_last_cell_of_line c g of
       (out1, Returned u g') \<Rightarrow> (case run_all cs g' of (out2, r) \<Rightarrow> (out1 @ out2, r))
     | (out1, Exited g') \<Rightarrow> (out1, Exited g')
     | (out1, DivByZero) \<Rightarrow> (out1, DivByZero))"

lemma choose_board_loop_run_all:
  "i \<le> length (available st) \<Longrightarrow>
   choose_board_loop i st g = run_all (map (\<lambda>j. move_to_board j st) [i..<length (available st)]) g"
proof (induction "length (available st) - i" arbitrary: i g)
  case 0
  then show ?case by (simp add: choose_board_loop.simps[of i st g])
next
  case (Suc k)
  then have lt: "i < length (available st)" by simp
  then have up: "[i..<length (available st)] = i # [i + 1..<length (available st)]"
    by (simp add: upt_conv_Cons)
  have l: "choose_board_loop (Suc i) st g' =
      run_all (map (\<lambda>j. move_to_board j st) [Suc i..<length (available st)]) g'" for g'
    using Suc(1)[of "Suc i" g'] Suc(2) lt by simp
  show ?case
    unfolding choose_board_loop.simps[of i st g] up using lt
    by (simp add: l split: prod.splits outcome.splits)
qed

lemma placed_values_board:
  "map (\<lambda>i. last (board (move_to_board i bs))) [0..<length (available bs)] = available bs"
  by (simp add: move_to_board_def map_nth)

lemma placed_values_array:
  assumes "wf_state st" "n_cells_filled st < N_Hexes"
  shows "map (\<lambda>j. numbers (place j st) ! n_cells_filled st) [n_cells_filled st..<N_Hexes]
         = drop (n_cells_filled st) (numbers st)"
proof (rule nth_equalityI)
  from assms show "length (map (\<lambda>j. numbers (place j st) ! n_cells_filled st)
      [n_cells_filled st..<N_Hexes]) = length (drop (n_cells_filled st) (numbers st))"
    by (simp add: wf_state_def)
next
  fix i
  assume "i < length (map (\<lambda>j. numbers (place j st) ! n_cells_filled st)
      [n_cells_filled st..<N_Hexes])"
  then have i: "n_cells_filled st + i < N_Hexes" by simp
  with assms show "map (\<lambda>j. numbers (place j st) ! n_cells_filled st)
      [n_cells_filled st..<N_Hexes] ! i = drop (n_cells_filled st) (numbers st) ! i"
    by (simp add: place_def wf_state_def nth_list_update)
qed

lemma sorted_wrt_remove_nth:
  assumes "sorted_wrt R xs"
  shows "sorted_wrt R (take i xs @ drop (Suc i) xs)"
proof -
  from assms have "sorted_wrt R (take i xs @ drop i xs)" by simp
  then have t: "sorted_wrt R (take i xs)" and d: "sorted_wrt R (drop i xs)"
    and c: "\<forall>x \<in> set (take i xs). \<forall>y \<in> set (drop i xs). R x y"
    unfolding sorted_wrt_append by simp_all
  have "drop (Suc i) xs = drop 1 (drop i xs)" by simp
  then have s: "set (drop (Suc i) xs) \<subseteq> set (drop i xs)"
    by (metis set_drop_subset)
  from assms have "sorted_wrt R (drop (Suc i) xs)" by (rule sorted_wrt_drop)
  with t c s show ?thesis unfolding sorted_wrt_append by blast
qed

lemma available_init_ascending: "sorted_wrt (<) (available BoardState_init)"
  by (simp add: BoardState_init_def upt_rec)

lemma reach_board_ascending: "reach_board bs \<Longrightarrow> sorted_wrt (<) (available bs)"
proof (induction rule: reach_board.induct)
  case reach_board_init
  show ?case by (rule available_init_ascending)
next
  case (reach_board_step bs i)
  then show ?case by (simp add: move_to_board_def sorted_wrt_remove_nth)
qed

text \<open>
  C7.  A branch step tries every pool value once, in the order of the pool: the
  line-by-line engine and \<^verbatim>\<open>BoardState::choose\<close> recurse on the states
  \<^verbatim>\<open>move_to_board(0)\<close>, \<^verbatim>\<open>move_to_board(1)\<close>, ... of the current state, whose newly placed
  values are the list \<^verbatim>\<open>available\<close>; \<^verbatim>\<open>ArrayBoardState::choose\<close> (either strategy) recurses
  on the states that have \<^verbatim>\<open>numbers[n_cells_filled]\<close> swapped with \<^verbatim>\<open>numbers[j]\<close> for
  \<^verbatim>\<open>j = n_cells_filled, ..., N_Hexes - 1\<close>, whose newly placed values are the pool in its
  order.  In a \<^verbatim>\<open>BoardState\<close> the pool starts strictly ascending and \<^verbatim>\<open>move_to_board\<close> keeps
  it so: it is strictly ascending in every state a vector engine is called on during a
  search from the initial state.
\<close>

theorem C7_branch_order:
  "(\<not> incorrect_already fo bs \<and> available bs \<noteq> [] \<longrightarrow>
      solve_test_as_lines_filled fo bs =
        concat (map (\<lambda>i. solve_test_as_lines_filled fo (move_to_board i bs))
                  [0..<length (available bs)])) \<and>
   choose_board bs g = run_all (map (\<lambda>i. move_to_board i bs) [0..<length (available bs)]) g \<and>
   map (\<lambda>i. last (board (move_to_board i bs))) [0..<length (available bs)] = available bs \<and>
   (wf_state st \<and> n_cells_filled st < N_Hexes \<longrightarrow>
      choose_array rs st =
        Inr (st, concat (map (\<lambda>j. solve_out rs (place j st)) [n_cells_filled st..<N_Hexes])) \<and>
      (\<forall>j. n_cells_filled st \<le> j \<and> j < N_Hexes \<longrightarrow>
         (\<exists>sw. swap_numbers (n_cells_filled st) j st = Inr sw \<and>
               sw\<lparr>n_cells_filled := size_inc (n_cells_filled sw)\<rparr> = place j st) \<and>
         solve rs (place j st) = Inr (place j st, solve_out rs (place j st))) \<and>
      map (\<lambda>j. numbers (place j st) ! n_cells_filled st) [n_cells_filled st..<N_Hexes]
        = drop (n_cells_filled st) (numbers st)) \<and>
   sorted_wrt (<) (available BoardState_init) \<and>
   (sorted_wrt (<) (available bs) \<longrightarrow> sorted_wrt (<) (available (move_to_board i bs))) \<and>
   (reach_board bs' \<longrightarrow> sorted_wrt (<) (available bs'))"
proof (intro conjI impI allI)
  assume "\<not> incorrect_already fo bs \<and> available bs \<noteq> []"
  then show "solve_test_as_lines_filled fo bs =
        concat (map (\<lambda>i. solve_test_as_lines_filled fo (move_to_board i bs))
                  [0..<length (available bs)])"
    by (simp add: solve_test_as_lines_filled_unfold[of fo bs])
next
  show "choose_board bs g =
      run_all (map (\<lambda>i. move_to_board i bs) [0..<length (available bs)]) g"
    by (simp add: choose_board.simps[of bs g] choose_board_loop_run_all)
next
  show "map (\<lambda>i. last (board (move_to_board i bs))) [0..<length (available bs)] = available bs"
    by (rule placed_values_board)
next
  assume a: "wf_state st \<and> n_cells_filled st < N_Hexes"
  then show "choose_array rs st =
        Inr (st, concat (map (\<lambda>j. solve_out rs (place j st)) [n_cells_filled st..<N_Hexes]))"
    using choose_char by blast
  from a show "map (\<lambda>j. numbers (place j st) ! n_cells_filled st) [n_cells_filled st..<N_Hexes]
        = drop (n_cells_filled st) (numbers st)"
    using placed_values_array by blast
  fix j
  assume j: "n_cells_filled st \<le> j \<and> j < N_Hexes"
  with a show "\<exists>sw. swap_numbers (n_cells_filled st) j st = Inr sw \<and>
               sw\<lparr>n_cells_filled := size_inc (n_cells_filled sw)\<rparr> = place j st"
    using swap_then_inc by blast
  from a show "solve rs (place j st) = Inr (place j st, solve_out rs (place j st))"
    using solve_returns[OF wf_place] by blast
next
  show "sorted_wrt (<) (available BoardState_init)" by (rule available_init_ascending)
next
  assume "sorted_wrt (<) (available bs)"
  then show "sorted_wrt (<) (available (move_to_board i bs))"
    by (simp add: move_to_board_def sorted_wrt_remove_nth)
next
  assume "reach_board bs'"
  then show "sorted_wrt (<) (available bs')" by (rule reach_board_ascending)
qed

theorem C7_branch_order_witness:
  "\<not> incorrect_already Raster BoardState_init \<and> available BoardState_init \<noteq> [] \<and>
   solve_test_as_lines_filled Raster BoardState_init =
     concat (map (\<lambda>i. solve_test_as_lines_filled Raster (move_to_board i BoardState_init))
               [0..<length (available BoardState_init)]) \<and>
   choose_board BoardState_init Globals_init =
     run_all (map (\<lambda>i. move_to_board i BoardState_init)
                [0..<length (available BoardState_init)]) Globals_init \<and>
   wf_state ArrayBoardState_init \<and> n_cells_filled ArrayBoardState_init < N_Hexes \<and>
   choose_array CreateNew ArrayBoardState_init =
     Inr (ArrayBoardState_init,
          concat (map (\<lambda>j. solve_out CreateNew (place j ArrayBoardState_init))
                    [n_cells_filled ArrayBoardState_init..<N_Hexes])) \<and>
   map (\<lambda>j. numbers (place j ArrayBoardState_init) ! n_cells_filled ArrayBoardState_init)
       [n_cells_filled ArrayBoardState_init..<N_Hexes]
     = drop (n_cells_filled ArrayBoardState_init) (numbers ArrayBoardState_init) \<and>
   sorted_wrt (<) (available BoardState_init) \<and>
   sorted_wrt (<) (available (move_to_board 3 BoardState_init)) \<and>
   reach_board (move_to_board 3 BoardState_init)"
proof -
  have a: "\<not> incorrect_already Raster BoardState_init"
    by (simp add: incorrect_already_def BoardState_init_def raster_checks_def)
  have b: "available BoardState_init \<noteq> []"
    by (simp add: BoardState_init_def)
  have wf: "wf_state ArrayBoardState_init"
    by (simp add: wf_state_def ArrayBoardState_init_def N_Hexes_def)
  have n: "n_cells_filled ArrayBoardState_init < N_Hexes"
    by (simp add: ArrayBoardState_init_def N_Hexes_def)
  note t = C7_branch_order[where fo = Raster and bs = BoardState_init and g = Globals_init
      and st = ArrayBoardState_init and rs = CreateNew and i = 3
      and bs' = "move_to_board 3 BoardState_init"]
  have rb: "reach_board (move_to_board 3 BoardState_init)"
    by (rule reach_board_step[OF reach_board_init]) (simp add: BoardState_init_def)
  from t a b wf n rb show ?thesis by blast
qed

section \<open>Boards that reach the sink\<close>





lemma sum_correct_append:
  assumes "\<forall>i \<in> set idxs. i < length bd"
  shows "sum_correct (bd @ ys) idxs = sum_correct bd idxs"
proof -
  from assms have "map (\<lambda>i. uint ((bd @ ys) ! i)) idxs = map (\<lambda>i. uint (bd ! i)) idxs"
    by (simp add: nth_append)
  then have "sum_of (bd @ ys) idxs = sum_of bd idxs"
    unfolding sum_of_def by (rule arg_cong)
  then show ?thesis by (simp add: sum_correct_def)
qed

lemma not_incorrect_already:
  "\<not> incorrect_already fo bs \<longleftrightarrow>
   list_all (\<lambda>(n, idxs). n = length (board bs) \<longrightarrow> sum_correct (board bs) idxs) (checks_of fo)"
  by (auto simp: incorrect_already_def Let_def list_all_iff list_ex_iff)







lemma solve_test_as_lines_filled_last:
  assumes "available bs = []"
  shows "solve_test_as_lines_filled fo bs =
    (if list_all (sum_correct (board bs))
          (map snd (filter (\<lambda>(n, idxs). n = length (board bs)) (checks_of fo)))
     then [board bs] else [])"
proof -
  have "\<not> incorrect_already fo bs \<longleftrightarrow>
      list_all (sum_correct (board bs))
        (map snd (filter (\<lambda>(n, idxs). n = length (board bs)) (checks_of fo)))"
    unfolding not_incorrect_already list_all_iff by force
  then have "incorrect_already fo bs \<longleftrightarrow>
      \<not> list_all (sum_correct (board bs))
        (map snd (filter (\<lambda>(n, idxs). n = length (board bs)) (checks_of fo)))"
    by blast
  with assms show ?thesis
    by (simp add: solve_test_as_lines_filled_unfold[of fo bs])
qed



section \<open>The deducing engine on \<^verbatim>\<open>BoardState\<close> validates with the raster table\<close>

text \<open>
  The engine fills the board in spiral order (its deductions close spiral lines), but
  its terminal step calls \<^verbatim>\<open>CheckHardcoded::is_solution\<close>, the raster table.  Once seven
  cells are filled, cells 4, 5 and 6 sum to 38 by the deduction at step 6; the raster
  line 3, 4, 5, 6 then needs a zero in cell 3.
\<close>

definition deduce_inv :: "BoardState \<Rightarrow> bool" where
  "deduce_inv bs =
    (list_all in_range (board bs @ available bs) \<and>
     (7 \<le> length (board bs) \<longrightarrow> sum_correct (board bs) [4, 5, 6]))"

lemma deduce_inv_init: "deduce_inv BoardState_init"
  using perm_in_range[OF is_perm_init_board]
  by (simp add: deduce_inv_def list_all_iff BoardState_init_def)

lemma CheckHardcoded_is_solution_result:
  "CheckHardcoded_is_solution b g = Returned r g' \<Longrightarrow> r = list_all (sum_correct b) hex_lines"
  by (auto simp: CheckHardcoded_is_solution_def Let_def split: if_splits)

lemma raster_check_fails:
  assumes "deduce_inv bs" "length (board bs) = 19"
  shows "\<not> list_all (sum_correct (board bs)) hex_lines"
proof
  assume "list_all (sum_correct (board bs)) hex_lines"
  then have "sum_correct (board bs) [3, 4, 5, 6]"
    by (simp add: hex_lines_def)
  moreover from assms have "sum_correct (board bs) [4, 5, 6]"
    by (simp add: deduce_inv_def)
  ultimately have z: "uint (board bs ! 3) = 0"
    by (simp add: sum_correct_def sum_of_def)
  from assms(2) have "board bs ! 3 \<in> set (board bs)" by simp
  with assms(1) have "in_range (board bs ! 3)"
    by (simp add: deduce_inv_def list_all_iff)
  with z show False by (simp add: in_range_def)
qed

lemma deduce_inv_move_to_board:
  assumes "deduce_inv bs" "i < length (available bs)" "length (board bs) \<noteq> 6"
  shows "deduce_inv (move_to_board i bs)"
proof -
  from assms(2) have "set (available (move_to_board i bs)) \<subseteq> set (available bs)"
    and "available bs ! i \<in> set (available bs)"
    by (auto simp: move_to_board_def dest: in_set_takeD in_set_dropD)
  with assms(1) have r: "list_all in_range
      (board (move_to_board i bs) @ available (move_to_board i bs))"
    by (auto simp: deduce_inv_def list_all_iff move_to_board_def)
  have "sum_correct (board (move_to_board i bs)) [4, 5, 6]"
    if "7 \<le> length (board (move_to_board i bs))"
  proof -
    from that assms(3) have l: "7 \<le> length (board bs)" by (simp add: move_to_board_def)
    then have "\<forall>j \<in> set [4, 5, 6 :: nat]. j < length (board bs)" by simp
    from sum_correct_append[OF this] assms(1) l show ?thesis
      by (simp add: move_to_board_def deduce_inv_def)
  qed
  with r show ?thesis by (simp add: deduce_inv_def)
qed

lemma deduce_inv_step_6:
  assumes "deduce_inv bs" "length (board bs) = 6"
    "k = std_find (available bs) (word_of_int (uint Required_Sum - sum_of (board bs) [4, 5]))"
    "k \<noteq> length (available bs)"
  shows "deduce_inv (move_to_board k bs)"
proof -
  let ?needed = "word_of_int (uint Required_Sum - sum_of (board bs) [4, 5]) :: u8"
  from assms(3,4) std_find_le[of "available bs" ?needed] have lt: "k < length (available bs)"
    by simp
  have "?needed \<in> set (available bs)"
  proof (rule ccontr)
    assume "?needed \<notin> set (available bs)"
    from std_find_absent[OF this] assms(3,4) show False by simp
  qed
  from std_find_present[OF this] assms(3) have v: "available bs ! k = ?needed" by simp
  from lt have "set (available (move_to_board k bs)) \<subseteq> set (available bs)"
    and "available bs ! k \<in> set (available bs)"
    by (auto simp: move_to_board_def dest: in_set_takeD in_set_dropD)
  with assms(1) have r: "list_all in_range
      (board (move_to_board k bs) @ available (move_to_board k bs))"
    by (auto simp: deduce_inv_def list_all_iff move_to_board_def)
  from assms(1,2) have "in_range (board bs ! 4)" "in_range (board bs ! 5)"
    by (simp_all add: deduce_inv_def list_all_iff)
  then have b: "0 \<le> uint Required_Sum - sum_of (board bs) [4, 5]"
    "uint Required_Sum - sum_of (board bs) [4, 5] < 256"
    by (simp_all add: in_range_def sum_of_def uint_Required_Sum)
  then have "(uint Required_Sum - sum_of (board bs) [4, 5]) mod 256
      = uint Required_Sum - sum_of (board bs) [4, 5]"
    by simp
  then have u: "uint ?needed = uint Required_Sum - sum_of (board bs) [4, 5]"
    unfolding uint_word_of_int by simp
  have "sum_of (board bs @ [?needed]) [4, 5, 6] = sum_of (board bs) [4, 5] + uint ?needed"
    using assms(2) by (simp add: sum_of_def nth_append)
  with u have "sum_correct (board bs @ [?needed]) [4, 5, 6]"
    by (simp add: sum_correct_def)
  with v have "sum_correct (board (move_to_board k bs)) [4, 5, 6]"
    by (simp add: move_to_board_def)
  with r show ?thesis by (simp add: deduce_inv_def)
qed

lemma plan_step_6: "plan_step 6 = Deduce [4, 5]"
  by (simp add: plan_step_def)

lemma vec_sinks_nothing:
  "deduce_inv st \<longrightarrow> fst (solve_deduce_last_cell_of_line st g) = []"
  "deduce_inv st \<and> length (board st) \<noteq> 6 \<longrightarrow> fst (choose_board st g) = []"
  "deduce_inv st \<and> length (board st) \<noteq> 6 \<longrightarrow> fst (choose_board_loop i st g) = []"
  "deduce_inv st \<and> (length (board st) = 6 \<longrightarrow> idxs = [4, 5])
     \<longrightarrow> fst (deduce_board idxs st g) = []"
proof (induction st g and st g and i st g and idxs st g
       rule: solve_deduce_last_cell_of_line_choose_board_choose_board_loop_deduce_board.induct)
  case (1 st g)
  show ?case
  proof
    assume inv: "deduce_inv st"
    show "fst (solve_deduce_last_cell_of_line st g) = []"
    proof (cases "plan_step (length (board st))")
      case Choose
      with plan_step_6 have "length (board st) \<noteq> 6" by auto
      with 1(1)[OF Choose] inv Choose show ?thesis
        by (simp add: solve_deduce_last_cell_of_line.simps[of st g])
    next
      case (Deduce idxs)
      with plan_step_6 have "length (board st) = 6 \<longrightarrow> idxs = [4, 5]" by auto
      with 1(2)[OF Deduce] inv Deduce show ?thesis
        by (simp add: solve_deduce_last_cell_of_line.simps[of st g])
    next
      case Terminal
      then have n: "length (board st) = 19"
        by (auto simp: plan_step_def split: if_splits)
      note f = raster_check_fails[OF inv n]
      show ?thesis
      proof (cases "CheckHardcoded_is_solution (board st) g")
        case (Returned r g')
        from CheckHardcoded_is_solution_result[OF this] f have "\<not> r" by simp
        with Terminal Returned show ?thesis
          by (simp add: solve_deduce_last_cell_of_line.simps[of st g])
      next
        case (Exited g')
        with Terminal show ?thesis
          by (simp add: solve_deduce_last_cell_of_line.simps[of st g])
      next
        case DivByZero
        with Terminal show ?thesis
          by (simp add: solve_deduce_last_cell_of_line.simps[of st g])
      qed
    next
      case NoCase
      then show ?thesis by (simp add: solve_deduce_last_cell_of_line.simps[of st g])
    qed
  qed
next
  case (2 st g)
  then show ?case by (simp add: choose_board.simps[of st g])
next
  case (3 i st g)
  show ?case
  proof
    assume a: "deduce_inv st \<and> length (board st) \<noteq> 6"
    show "fst (choose_board_loop i st g) = []"
    proof (cases "i < length (available st)")
      case True
      obtain out1 r1 where s: "solve_deduce_last_cell_of_line (move_to_board i st) g = (out1, r1)"
        by (cases "solve_deduce_last_cell_of_line (move_to_board i st) g")
      from 3(1)[OF True] s a deduce_inv_move_to_board[OF _ True] have o1: "out1 = []" by simp
      show ?thesis
      proof (cases r1)
        case (Returned u g')
        obtain out2 r2 where l: "choose_board_loop (i + 1) st g' = (out2, r2)"
          by (cases "choose_board_loop (i + 1) st g'")
        from 3(2)[OF True s[symmetric] Returned] l a have "out2 = []" by simp
        with o1 True s Returned l show ?thesis
          by (simp add: choose_board_loop.simps[of i st g])
      next
        case (Exited g')
        with o1 True s show ?thesis by (simp add: choose_board_loop.simps[of i st g])
      next
        case DivByZero
        with o1 True s show ?thesis by (simp add: choose_board_loop.simps[of i st g])
      qed
    next
      case False
      then show ?thesis by (simp add: choose_board_loop.simps[of i st g])
    qed
  qed
next
  case (4 idxs st g)
  let ?needed = "word_of_int (uint Required_Sum - sum_of (board st) idxs) :: u8"
  let ?k = "std_find (available st) ?needed"
  show ?case
  proof
    assume a: "deduce_inv st \<and> (length (board st) = 6 \<longrightarrow> idxs = [4, 5])"
    show "fst (deduce_board idxs st g) = []"
    proof (cases "?k = length (available st)")
      case True
      then show ?thesis by (simp add: deduce_board.simps[of idxs st g] Let_def)
    next
      case False
      with std_find_le[of "available st" ?needed] have lt: "?k < length (available st)" by simp
      have "deduce_inv (move_to_board ?k st)"
      proof (cases "length (board st) = 6")
        case True
        with a have "idxs = [4, 5]" by simp
        with deduce_inv_step_6[OF _ True refl] a False show ?thesis by simp
      next
        case ne: False
        from deduce_inv_move_to_board[OF _ lt ne] a show ?thesis by simp
      qed
      with 4[OF refl refl False] False show ?thesis
        by (simp add: deduce_board.simps[of idxs st g] Let_def)
    qed
  qed
qed




text \<open>
  C2 fails for the vector-based deducing engine: started from the initial empty state,
  with any value of the statics, it never calls the sink.
\<close>

theorem C2_vector_deduce_sinks_nothing:
  "fst (solve_deduce_last_cell_of_line BoardState_init g) = []"
  using vec_sinks_nothing(1)[of BoardState_init g] deduce_inv_init by simp

section \<open>Validity of the boards that reach the sink\<close>







end
